theory Spec2Isabelle
  imports Main
begin

section \<open>Text: code points, Python string methods\<close>

text \<open>
  The program is \<^verbatim>\<open>tools/patch_unitree.py\<close>. A Python \<^verbatim>\<open>str\<close> is a sequence of Unicode
  code points, so a character is modelled by its code point (a natural number) and a
  string by a list of code points. \<open>str\<close> embeds an ASCII literal.
\<close>

type_synonym uchar = nat
type_synonym ustring = "nat list"

definition str :: "string \<Rightarrow> ustring" where
  "str s = map of_char s"

abbreviation TAB :: uchar where "TAB \<equiv> 9"
abbreviation LF :: uchar where "LF \<equiv> 10"
abbreviation CR :: uchar where "CR \<equiv> 13"
abbreviation SP :: uchar where "SP \<equiv> 32"
abbreviation DQUOTE :: uchar where "DQUOTE \<equiv> 34"
abbreviation HASH :: uchar where "HASH \<equiv> 35"
abbreviation SQUOTE :: uchar where "SQUOTE \<equiv> 39"
abbreviation LPAREN :: uchar where "LPAREN \<equiv> 40"
abbreviation RPAREN :: uchar where "RPAREN \<equiv> 41"
abbreviation COMMA :: uchar where "COMMA \<equiv> 44"
abbreviation EQUALS :: uchar where "EQUALS \<equiv> 61"

text \<open>
  \<^verbatim>\<open>str.isspace\<close>, which is also the class \<^verbatim>\<open>\s\<close> of a \<^verbatim>\<open>str\<close> pattern and the set
  that \<^verbatim>\<open>strip()\<close> removes: U+0009..U+000D, U+001C..U+0020, U+0085, U+00A0, U+1680,
  U+2000..U+200A, U+2028, U+2029, U+202F, U+205F, U+3000.
\<close>

definition is_space :: "uchar \<Rightarrow> bool" where
  "is_space c \<longleftrightarrow>
     (9 \<le> c \<and> c \<le> 13) \<or> (28 \<le> c \<and> c \<le> 32) \<or> c = 133 \<or> c = 160 \<or> c = 5760 \<or>
     (8192 \<le> c \<and> c \<le> 8202) \<or> c = 8232 \<or> c = 8233 \<or> c = 8239 \<or> c = 8287 \<or> c = 12288"

text \<open>The line boundaries of \<^verbatim>\<open>str.splitlines\<close> (besides the pair CR LF).\<close>

definition is_linebreak :: "uchar \<Rightarrow> bool" where
  "is_linebreak c \<longleftrightarrow>
     c = 10 \<or> c = 11 \<or> c = 12 \<or> c = 13 \<or> c = 28 \<or> c = 29 \<or> c = 30 \<or> c = 133 \<or>
     c = 8232 \<or> c = 8233"

text \<open>The class \<^verbatim>\<open>[ \t]\<close>, and \<^verbatim>\<open>.\<close> (no DOTALL flag: anything but a newline).\<close>

definition is_blank :: "uchar \<Rightarrow> bool" where
  "is_blank c \<longleftrightarrow> c = SP \<or> c = TAB"

definition is_dot :: "uchar \<Rightarrow> bool" where
  "is_dot c \<longleftrightarrow> c \<noteq> LF"

definition lstrip :: "ustring \<Rightarrow> ustring" where
  "lstrip s = dropWhile is_space s"

definition rstrip :: "ustring \<Rightarrow> ustring" where
  "rstrip s = rev (dropWhile is_space (rev s))"

definition strip :: "ustring \<Rightarrow> ustring" where
  "strip s = rstrip (lstrip s)"

text \<open>\<^verbatim>\<open>s.rstrip("\n")\<close> removes every trailing newline.\<close>

definition rstrip_nl :: "ustring \<Rightarrow> ustring" where
  "rstrip_nl s = rev (dropWhile (\<lambda>c. c = LF) (rev s))"

definition startswith :: "ustring \<Rightarrow> ustring \<Rightarrow> bool" where
  "startswith s p \<longleftrightarrow> take (length p) s = p"

text \<open>
  \<^verbatim>\<open>src.splitlines(True)\<close>: the lines with their terminators kept. \<open>cur\<close> is the line
  read so far. CR LF is one terminator; a last line without terminator is kept, an
  empty one is not.
\<close>

fun splitlines_from :: "ustring \<Rightarrow> ustring \<Rightarrow> ustring list" where
  "splitlines_from cur [] = (if cur = [] then [] else [cur])"
| "splitlines_from cur [c] =
     (if is_linebreak c then [cur @ [c]] else [cur @ [c]])"
| "splitlines_from cur (c # d # s) =
     (if c = CR \<and> d = LF then (cur @ [CR, LF]) # splitlines_from [] s
      else if is_linebreak c then (cur @ [c]) # splitlines_from [] (d # s)
      else splitlines_from (cur @ [c]) (d # s))"

definition splitlines_keep :: "ustring \<Rightarrow> ustring list" where
  "splitlines_keep src = splitlines_from [] src"

section \<open>Regular expressions\<close>

text \<open>
  \<^verbatim>\<open>re\<close> matches by backtracking: of the ways a pattern can match, it returns the first
  in the order fixed by the pattern (a greedy quantifier tries more first, a lazy one
  less first, an alternative its left branch first). A pattern is modelled by the list
  of all its matches at the head of a string, in that order, each with the value it
  captures and the text left over; \<^verbatim>\<open>re.match\<close> is the head of that list.
\<close>

type_synonym 'a rx = "ustring \<Rightarrow> ('a \<times> ustring) list"

definition rx_ret :: "'a \<Rightarrow> 'a rx" where
  "rx_ret a s = [(a, s)]"

definition rx_bind :: "'a rx \<Rightarrow> ('a \<Rightarrow> 'b rx) \<Rightarrow> 'b rx" where
  "rx_bind p f s = concat (map (\<lambda>(a, r). f a r) (p s))"

text \<open>One character of a class; one given character; a literal text.\<close>

definition rx_cls :: "(uchar \<Rightarrow> bool) \<Rightarrow> ustring rx" where
  "rx_cls P s = (case s of [] \<Rightarrow> [] | x # xs \<Rightarrow> if P x then [([x], xs)] else [])"

definition rx_chr :: "uchar \<Rightarrow> ustring rx" where
  "rx_chr c = rx_cls (\<lambda>x. x = c)"

definition rx_lit :: "ustring \<Rightarrow> ustring rx" where
  "rx_lit w s = (if take (length w) s = w then [(w, drop (length w) s)] else [])"

text \<open>\<^verbatim>\<open>pq\<close> with the matched texts joined; \<^verbatim>\<open>p|q\<close>; \<^verbatim>\<open>p?\<close> (greedy).\<close>

definition rx_cat :: "ustring rx \<Rightarrow> ustring rx \<Rightarrow> ustring rx" where
  "rx_cat p q = rx_bind p (\<lambda>a. rx_bind q (\<lambda>b. rx_ret (a @ b)))"

definition rx_alt :: "'a rx \<Rightarrow> 'a rx \<Rightarrow> 'a rx" where
  "rx_alt p q s = p s @ q s"

definition rx_optt :: "ustring rx \<Rightarrow> ustring rx" where
  "rx_optt p = rx_alt p (rx_ret [])"

text \<open>An optional capturing group \<^verbatim>\<open>(p)?\<close>: \<open>None\<close> is Python's \<^verbatim>\<open>None\<close> for the group.\<close>

definition rx_opt :: "'a rx \<Rightarrow> 'a option rx" where
  "rx_opt p s = map (\<lambda>(a, r). (Some a, r)) (p s) @ [(None, s)]"

text \<open>\<^verbatim>\<open>[c]*\<close> greedy, \<^verbatim>\<open>[c]*?\<close> lazy, \<^verbatim>\<open>[c]+\<close> greedy, over a character class.\<close>

fun rx_star :: "(uchar \<Rightarrow> bool) \<Rightarrow> ustring rx" where
  "rx_star P [] = [([], [])]"
| "rx_star P (x # xs) =
     (if P x then map (\<lambda>(m, r). (x # m, r)) (rx_star P xs) else []) @ [([], x # xs)]"

fun rx_lazy :: "(uchar \<Rightarrow> bool) \<Rightarrow> ustring rx" where
  "rx_lazy P [] = [([], [])]"
| "rx_lazy P (x # xs) =
     ([], x # xs) # (if P x then map (\<lambda>(m, r). (x # m, r)) (rx_lazy P xs) else [])"

definition rx_plus :: "(uchar \<Rightarrow> bool) \<Rightarrow> ustring rx" where
  "rx_plus P = rx_cat (rx_cls P) (rx_star P)"

text \<open>
  \<^verbatim>\<open>$\<close> without MULTILINE: the end of the string, or just before a newline that ends
  the string.
\<close>

definition rx_eol :: "unit rx" where
  "rx_eol s = (if s = [] \<or> s = [LF] then [((), s)] else [])"

text \<open>\<^verbatim>\<open>pattern.match(s)\<close>: the captured value of the first match, or \<open>None\<close>.\<close>

definition re_match :: "'a rx \<Rightarrow> ustring \<Rightarrow> 'a option" where
  "re_match p s = (case p s of [] \<Rightarrow> None | (a, r) # _ \<Rightarrow> Some a)"

section \<open>Comment toggle\<close>

text \<open>
  \<^verbatim>\<open>(\r?\n)?$\<close> and \<^verbatim>\<open>(.*?)(\r?\n)?$\<close>, the common end of the two line patterns, with the
  groups they capture.
\<close>

definition NL_RE :: "ustring rx" where
  "NL_RE = rx_cat (rx_optt (rx_chr CR)) (rx_chr LF)"

definition LINE_END_RE :: "ustring option rx" where
  "LINE_END_RE = rx_bind (rx_opt NL_RE) (\<lambda>nl. rx_bind rx_eol (\<lambda>_. rx_ret nl))"

definition LINE_TAIL_RE :: "(ustring \<times> ustring option) rx" where
  "LINE_TAIL_RE = rx_bind (rx_lazy is_dot) (\<lambda>rest. rx_bind LINE_END_RE (\<lambda>nl. rx_ret (rest, nl)))"

text \<open>\<^verbatim>\<open>^([ \t]*)(.*?)(\r?\n)?$\<close> of \<^verbatim>\<open>comment_line\<close>.\<close>

definition COMMENT_RE :: "(ustring \<times> ustring \<times> ustring option) rx" where
  "COMMENT_RE =
     rx_bind (rx_star is_blank) (\<lambda>indent.
     rx_bind LINE_TAIL_RE (\<lambda>(rest, nl). rx_ret (indent, rest, nl)))"

text \<open>\<^verbatim>\<open>^([ \t]*)#\s?(.*?)(\r?\n)?$\<close> of \<^verbatim>\<open>uncomment_line\<close>.\<close>

definition UNCOMMENT_RE :: "(ustring \<times> ustring \<times> ustring option) rx" where
  "UNCOMMENT_RE =
     rx_bind (rx_star is_blank) (\<lambda>indent.
     rx_bind (rx_chr HASH) (\<lambda>_.
     rx_bind (rx_optt (rx_cls is_space)) (\<lambda>_.
     rx_bind LINE_TAIL_RE (\<lambda>(rest, nl). rx_ret (indent, rest, nl)))))"

text \<open>\<^verbatim>\<open>m.group(3) or ""\<close>.\<close>

definition or_empty :: "ustring option \<Rightarrow> ustring" where
  "or_empty g = (case g of None \<Rightarrow> [] | Some t \<Rightarrow> t)"

definition comment_line :: "ustring \<Rightarrow> ustring" where
  "comment_line line =
     (if strip line = [] then line
      else case re_match COMMENT_RE line of
        None \<Rightarrow> line
      | Some (indent, rest, nl) \<Rightarrow>
          if startswith (lstrip rest) [HASH] then line
          else indent @ [HASH, SP] @ rest @ or_empty nl)"

definition uncomment_line :: "ustring \<Rightarrow> ustring" where
  "uncomment_line line =
     (if strip line = [] then line
      else case re_match UNCOMMENT_RE line of
        None \<Rightarrow> line
      | Some (indent, rest, nl) \<Rightarrow> indent @ rest @ or_empty nl)"
section \<open>Spawn block switcher\<close>

text \<open>\<^verbatim>\<open>kind.endswith(suffix)\<close>.\<close>

definition endswith :: "ustring \<Rightarrow> ustring \<Rightarrow> bool" where
  "endswith s p \<longleftrightarrow> length p \<le> length s \<and> drop (length s - length p) s = p"

text \<open>
  \<^verbatim>\<open>SPAWN_HEADER_ANY_RE\<close>:
  \<^verbatim>\<open>^(?P<indent>[ \t]*)(?P<prefix>#\s*)?spawn\s*=\s*(?P<kind>Unitree(?:Urdf|Usd)FileCfg)\s*\(\s*$\<close>.
  The value is the triple of the groups indent, prefix and kind.
\<close>

definition SPAWN_HEADER_ANY_RE :: "(ustring \<times> ustring option \<times> ustring) rx" where
  "SPAWN_HEADER_ANY_RE =
     rx_bind (rx_star is_blank) (\<lambda>indent.
     rx_bind (rx_opt (rx_cat (rx_chr HASH) (rx_star is_space))) (\<lambda>prefix.
     rx_bind (rx_lit (str ''spawn'')) (\<lambda>_.
     rx_bind (rx_star is_space) (\<lambda>_.
     rx_bind (rx_chr EQUALS) (\<lambda>_.
     rx_bind (rx_star is_space) (\<lambda>_.
     rx_bind (rx_cat (rx_lit (str ''Unitree''))
               (rx_cat (rx_alt (rx_lit (str ''Urdf'')) (rx_lit (str ''Usd'')))
                 (rx_lit (str ''FileCfg'')))) (\<lambda>kind.
     rx_bind (rx_star is_space) (\<lambda>_.
     rx_bind (rx_chr LPAREN) (\<lambda>_.
     rx_bind (rx_star is_space) (\<lambda>_.
     rx_bind rx_eol (\<lambda>_. rx_ret (indent, prefix, kind))))))))))))"

text \<open>\<^verbatim>\<open>SPAWN_FOOTER_ANY_RE\<close>: \<^verbatim>\<open>^(?P<indent>[ \t]*)(?P<prefix>#\s*)?\)\s*,\s*$\<close>.\<close>

definition SPAWN_FOOTER_ANY_RE :: "(ustring \<times> ustring option) rx" where
  "SPAWN_FOOTER_ANY_RE =
     rx_bind (rx_star is_blank) (\<lambda>indent.
     rx_bind (rx_opt (rx_cat (rx_chr HASH) (rx_star is_space))) (\<lambda>prefix.
     rx_bind (rx_chr RPAREN) (\<lambda>_.
     rx_bind (rx_star is_space) (\<lambda>_.
     rx_bind (rx_chr COMMA) (\<lambda>_.
     rx_bind (rx_star is_space) (\<lambda>_.
     rx_bind rx_eol (\<lambda>_. rx_ret (indent, prefix))))))))"

text \<open>
  \<^verbatim>\<open>CFG_START_RE\<close>:
  \<^verbatim>\<open>^(?P<indent>[ \t]*)(?P<var>[A-Z0-9_]+_CFG)\s*=\s*UnitreeArticulationCfg\s*\(\s*$\<close>.
\<close>

definition is_var_char :: "uchar \<Rightarrow> bool" where
  "is_var_char c \<longleftrightarrow> (65 \<le> c \<and> c \<le> 90) \<or> (48 \<le> c \<and> c \<le> 57) \<or> c = 95"

definition CFG_START_RE :: "(ustring \<times> ustring) rx" where
  "CFG_START_RE =
     rx_bind (rx_star is_blank) (\<lambda>indent.
     rx_bind (rx_cat (rx_plus is_var_char) (rx_lit (str ''_CFG''))) (\<lambda>var.
     rx_bind (rx_star is_space) (\<lambda>_.
     rx_bind (rx_chr EQUALS) (\<lambda>_.
     rx_bind (rx_star is_space) (\<lambda>_.
     rx_bind (rx_lit (str ''UnitreeArticulationCfg'')) (\<lambda>_.
     rx_bind (rx_star is_space) (\<lambda>_.
     rx_bind (rx_chr LPAREN) (\<lambda>_.
     rx_bind (rx_star is_space) (\<lambda>_.
     rx_bind rx_eol (\<lambda>_. rx_ret (indent, var)))))))))))"

text \<open>The three tests the code makes on a line: \<^verbatim>\<open>RE.match(lines[i].rstrip("\n"))\<close>.\<close>

definition spawn_header :: "ustring \<Rightarrow> (ustring \<times> ustring option \<times> ustring) option" where
  "spawn_header ln = re_match SPAWN_HEADER_ANY_RE (rstrip_nl ln)"

definition spawn_footer :: "ustring \<Rightarrow> bool" where
  "spawn_footer ln \<longleftrightarrow> re_match SPAWN_FOOTER_ANY_RE (rstrip_nl ln) \<noteq> None"

definition cfg_start :: "ustring \<Rightarrow> bool" where
  "cfg_start ln \<longleftrightarrow> re_match CFG_START_RE (rstrip_nl ln) \<noteq> None"

text \<open>
  An index out of range raises \<^verbatim>\<open>IndexError\<close>. Indices are natural numbers: the code
  never forms a negative one.
\<close>

datatype error = IndexError

type_synonym span = "nat \<times> nat"

text \<open>
  \<^verbatim>\<open>find_matching_footer\<close>: the first \<open>j\<close> in \<^verbatim>\<open>range(start_idx + 1, len(lines))\<close> whose
  line is a footer. \<open>first_footer_from ls j\<close> walks the lines \<open>ls\<close> that start at index
  \<open>j\<close>.
\<close>

fun first_footer_from :: "ustring list \<Rightarrow> nat \<Rightarrow> nat option" where
  "first_footer_from [] j = None"
| "first_footer_from (ln # rest) j =
     (if spawn_footer ln then Some j else first_footer_from rest (Suc j))"

definition find_matching_footer :: "ustring list \<Rightarrow> nat \<Rightarrow> nat option" where
  "find_matching_footer lines start_idx =
     first_footer_from (drop (start_idx + 1) lines) (start_idx + 1)"

lemma first_footer_from_ge: "first_footer_from ls j = Some k \<Longrightarrow> j \<le> k"
  by (induction ls arbitrary: j) (auto split: if_splits dest: Suc_leD)

lemma find_matching_footer_gt: "find_matching_footer lines i = Some j \<Longrightarrow> i < j"
  unfolding find_matching_footer_def by (drule first_footer_from_ge) simp

text \<open>
  \<^verbatim>\<open>locate_spawn_blocks_within\<close>: the \<^verbatim>\<open>while i <= block_end\<close> loop, with the two spans found
  so far.
\<close>

function locate_loop ::
  "ustring list \<Rightarrow> int \<Rightarrow> nat \<Rightarrow> span option \<Rightarrow> span option \<Rightarrow> error + (span option \<times> span option)"
where
  "locate_loop lines block_end i urdf usd =
     (if int i \<le> block_end then
        if i < length lines then
          (case spawn_header (lines ! i) of
             None \<Rightarrow> locate_loop lines block_end (i + 1) urdf usd
           | Some (indent, prefix, kind) \<Rightarrow>
               (case find_matching_footer lines i of
                  None \<Rightarrow> locate_loop lines block_end (i + 1) urdf usd
                | Some j \<Rightarrow>
                    if int j > block_end then locate_loop lines block_end (i + 1) urdf usd
                    else if endswith kind (str ''UrdfFileCfg'') \<and> urdf = None
                      then locate_loop lines block_end (j + 1) (Some (i, j)) usd
                    else if endswith kind (str ''UsdFileCfg'') \<and> usd = None
                      then locate_loop lines block_end (j + 1) urdf (Some (i, j))
                    else locate_loop lines block_end (j + 1) urdf usd))
        else Inl IndexError
      else Inr (urdf, usd))"
  by pat_completeness auto
termination
  by (relation "measure (\<lambda>(lines, block_end, i, urdf, usd). nat (block_end + 1 - int i))")
    (auto dest: find_matching_footer_gt)

definition locate_spawn_blocks_within ::
  "ustring list \<Rightarrow> nat \<Rightarrow> int \<Rightarrow> error + (span option \<times> span option)"
where
  "locate_spawn_blocks_within lines block_start block_end =
     locate_loop lines block_end block_start None None"

text \<open>
  \<^verbatim>\<open>switch_spawn_block\<close>: \<^verbatim>\<open>for k in range(s, e + 1)\<close>, \<^verbatim>\<open>lines[k]\<close> is replaced. The loop
  raises \<^verbatim>\<open>IndexError\<close> when it reaches an index past the list.
\<close>

definition switch_spawn_block :: "ustring list \<Rightarrow> span \<Rightarrow> bool \<Rightarrow> error + ustring list" where
  "switch_spawn_block lines span enable =
     (case span of (s, e) \<Rightarrow>
        if s \<le> e \<and> length lines \<le> e then Inl IndexError
        else Inr (fold (\<lambda>k ls. ls[k := (if enable then uncomment_line (ls ! k)
                                         else comment_line (ls ! k))])
                    [s ..< e + 1] lines))"

text \<open>
  \<^verbatim>\<open>find_cfg_block_end\<close>: \<open>scan_chars\<close> is the loop over the characters of a line,
  \<open>scan_lines ls i\<close> the loop over the lines \<open>ls\<close> that start at index \<open>i\<close>. When the end
  of the list is reached, the result is \<^verbatim>\<open>len(lines) - 1\<close>.
\<close>

fun scan_chars :: "ustring \<Rightarrow> int \<times> bool \<Rightarrow> int \<times> bool" where
  "scan_chars [] (depth, started) = (depth, started)"
| "scan_chars (ch # rest) (depth, started) =
     (if ch = LPAREN then scan_chars rest (depth + 1, True)
      else if ch = RPAREN then scan_chars rest (depth - 1, started)
      else scan_chars rest (depth, started))"

fun scan_lines :: "ustring list \<Rightarrow> nat \<Rightarrow> int \<times> bool \<Rightarrow> nat option" where
  "scan_lines [] i st = None"
| "scan_lines (ln # rest) i st =
     (case scan_chars ln st of (depth, started) \<Rightarrow>
        if started \<and> depth \<le> 0 then Some i else scan_lines rest (Suc i) (depth, started))"

definition find_cfg_block_end :: "ustring list \<Rightarrow> nat \<Rightarrow> int" where
  "find_cfg_block_end lines start_idx =
     (case scan_lines (drop start_idx lines) start_idx (0, False) of
        Some i \<Rightarrow> int i
      | None \<Rightarrow> int (length lines) - 1)"

lemma scan_lines_ge: "scan_lines ls i st = Some k \<Longrightarrow> i \<le> k"
  by (induction ls arbitrary: i st) (auto split: if_splits prod.splits dest: Suc_leD)

lemma find_cfg_block_end_ge:
  "i < length lines \<Longrightarrow> int i \<le> find_cfg_block_end lines i"
  by (auto simp: find_cfg_block_end_def split: option.splits dest: scan_lines_ge)

text \<open>
  The switch of \<^verbatim>\<open>patch_spawn_modes\<close>: in mode \<^verbatim>\<open>"urdf"\<close> the URDF span is enabled and the
  USD span disabled; in any other mode the USD span is enabled and the URDF span
  disabled.
\<close>

definition switch_opt :: "ustring list \<Rightarrow> span option \<Rightarrow> bool \<Rightarrow> error + ustring list" where
  "switch_opt lines span enable =
     (case span of None \<Rightarrow> Inr lines | Some sp \<Rightarrow> switch_spawn_block lines sp enable)"

definition switch_mode ::
  "ustring list \<Rightarrow> ustring \<Rightarrow> span option \<Rightarrow> span option \<Rightarrow> error + ustring list"
where
  "switch_mode lines mode urdf_span usd_span =
     (if mode = str ''urdf'' then
        (case switch_opt lines urdf_span True of
           Inl e \<Rightarrow> Inl e
         | Inr lines1 \<Rightarrow> switch_opt lines1 usd_span False)
      else
        (case switch_opt lines usd_span True of
           Inl e \<Rightarrow> Inl e
         | Inr lines1 \<Rightarrow> switch_opt lines1 urdf_span False))"

lemma length_fold_update:
  "length (fold (\<lambda>k ls. ls[k := g (ls ! k)]) ks lines) = length lines"
  by (induction ks arbitrary: lines) auto

lemma switch_spawn_block_length:
  "switch_spawn_block lines span enable = Inr lines' \<Longrightarrow> length lines' = length lines"
  by (cases enable) (auto simp: switch_spawn_block_def length_fold_update split: prod.splits if_splits)

lemma switch_opt_length:
  "switch_opt lines span enable = Inr lines' \<Longrightarrow> length lines' = length lines"
  by (auto simp: switch_opt_def split: option.splits dest: switch_spawn_block_length)

lemma switch_mode_length:
  "switch_mode lines mode u d = Inr lines' \<Longrightarrow> length lines' = length lines"
  by (auto simp: switch_mode_def split: if_splits sum.splits dest!: switch_opt_length)

text \<open>
  \<^verbatim>\<open>patch_spawn_modes\<close>: the \<^verbatim>\<open>while i < len(lines)\<close> loop with its three counters, then
  the join of the lines.
\<close>

function patch_loop ::
  "ustring list \<Rightarrow> ustring \<Rightarrow> nat \<Rightarrow> nat \<Rightarrow> nat \<Rightarrow> nat \<Rightarrow> error + (ustring list \<times> nat \<times> nat \<times> nat)"
where
  "patch_loop lines mode i cfg_blocks urdf_seen usd_seen =
     (if i < length lines then
        if \<not> cfg_start (lines ! i) then patch_loop lines mode (i + 1) cfg_blocks urdf_seen usd_seen
        else
          (case locate_spawn_blocks_within lines i (find_cfg_block_end lines i) of
             Inl e \<Rightarrow> Inl e
           | Inr (urdf_span, usd_span) \<Rightarrow>
               (case switch_mode lines mode urdf_span usd_span of
                  Inl e \<Rightarrow> Inl e
                | Inr lines' \<Rightarrow>
                    patch_loop lines' mode (nat (find_cfg_block_end lines i + 1))
                      (cfg_blocks + 1)
                      (if urdf_span \<noteq> None then urdf_seen + 1 else urdf_seen)
                      (if usd_span \<noteq> None then usd_seen + 1 else usd_seen)))
      else Inr (lines, cfg_blocks, urdf_seen, usd_seen))"
  by pat_completeness auto
termination
proof (relation "measure (\<lambda>(lines, mode, i, c, u, d). length lines - i)", goal_cases)
  case 1
  show ?case by simp
next
  case (2 lines mode i cfg_blocks urdf_seen usd_seen)
  then show ?case by simp
next
  case (3 lines mode i cfg_blocks urdf_seen usd_seen x2 urdf_span usd_span lines')
  from 3 have "length lines' = length lines" by (auto dest: switch_mode_length)
  moreover from 3 have "int i \<le> find_cfg_block_end lines i" by (intro find_cfg_block_end_ge)
  ultimately show ?case using 3 by simp
qed

definition patch_spawn_modes :: "ustring \<Rightarrow> ustring \<Rightarrow> error + (ustring \<times> nat \<times> nat \<times> nat)" where
  "patch_spawn_modes src mode =
     (case patch_loop (splitlines_keep src) mode 0 0 0 0 of
        Inl e \<Rightarrow> Inl e
      | Inr (lines, cfg_blocks, urdf_seen, usd_seen) \<Rightarrow>
          Inr (concat lines, cfg_blocks, urdf_seen, usd_seen))"

section \<open>Directory assignments\<close>

text \<open>
  \<^verbatim>\<open>DIR_ASSIGN_RE\<close>:
  \<^verbatim>\<open>^(?P<indent>[ \t]*)(?P<name>UNITREE_(?:ROS|MODEL)_DIR)\s*=\s*(?P<q>['"])(?P<val>.*?)(?P=q)(?P<tail>[ \t]*(#.*)?)$\<close>.
  The value holds the groups indent, name, q, val and tail; the backreference
  \<^verbatim>\<open>(?P=q)\<close> is the literal text that \<open>q\<close> captured.
\<close>

definition is_quote :: "uchar \<Rightarrow> bool" where
  "is_quote c \<longleftrightarrow> c = SQUOTE \<or> c = DQUOTE"

definition DIR_ASSIGN_RE :: "(ustring \<times> ustring \<times> ustring \<times> ustring \<times> ustring) rx" where
  "DIR_ASSIGN_RE =
     rx_bind (rx_star is_blank) (\<lambda>indent.
     rx_bind (rx_cat (rx_lit (str ''UNITREE_''))
               (rx_cat (rx_alt (rx_lit (str ''ROS'')) (rx_lit (str ''MODEL'')))
                 (rx_lit (str ''_DIR'')))) (\<lambda>name.
     rx_bind (rx_star is_space) (\<lambda>_.
     rx_bind (rx_chr EQUALS) (\<lambda>_.
     rx_bind (rx_star is_space) (\<lambda>_.
     rx_bind (rx_cls is_quote) (\<lambda>q.
     rx_bind (rx_lazy is_dot) (\<lambda>val.
     rx_bind (rx_lit q) (\<lambda>_.
     rx_bind (rx_cat (rx_star is_blank) (rx_optt (rx_cat (rx_chr HASH) (rx_star is_dot)))) (\<lambda>tail.
     rx_bind rx_eol (\<lambda>_. rx_ret (indent, name, q, val, tail)))))))))))"

text \<open>
  \<^verbatim>\<open>replace_dir_assignments\<close>: \<open>values\<close> is the dictionary from names to new values.
  \<open>rewrite_dir_line\<close> is the body of the loop: what is appended to \<^verbatim>\<open>out\<close> for the line
  \<^verbatim>\<open>ln\<close>.
\<close>

definition rewrite_dir_line :: "(ustring \<rightharpoonup> ustring) \<Rightarrow> ustring \<Rightarrow> ustring" where
  "rewrite_dir_line values ln =
     (case re_match DIR_ASSIGN_RE (rstrip_nl ln) of
        None \<Rightarrow> ln
      | Some (indent, name, q, val, tail) \<Rightarrow>
          (case values name of
             None \<Rightarrow> ln
           | Some v \<Rightarrow> indent @ name @ [SP, EQUALS, SP, DQUOTE] @ v @ [DQUOTE] @ tail @ [LF]))"

definition replace_dir_assignments :: "ustring \<Rightarrow> (ustring \<rightharpoonup> ustring) \<Rightarrow> ustring" where
  "replace_dir_assignments src values =
     concat (map (rewrite_dir_line values) (splitlines_keep src))"

section \<open>The run\<close>

text \<open>
  \<^verbatim>\<open>main\<close>, from the text of the file on. \<open>file\<close> is the text of \<^verbatim>\<open>unitree.py\<close> as
  \<^verbatim>\<open>read_text\<close> returns it, \<open>None\<close> when the file does not exist; \<open>mode\<close> is
  \<^verbatim>\<open>args.mode\<close>; \<open>values\<close> is the dictionary that the run builds from the directories it
  finds (empty without \<^verbatim>\<open>--write-dirs\<close>); \<open>no_backup\<close> is \<^verbatim>\<open>args.no_backup\<close>. The run
  either returns an exit status, with the text it wrote to the file and to the backup
  (\<open>None\<close>: not written), or raises. The printed report is left out.
\<close>

datatype run = Returned int "ustring option" "ustring option" | Raised error

definition main_run :: "ustring option \<Rightarrow> ustring \<Rightarrow> (ustring \<rightharpoonup> ustring) \<Rightarrow> bool \<Rightarrow> run" where
  "main_run file mode values no_backup =
     (case file of
        None \<Rightarrow> Returned 1 None None
      | Some original \<Rightarrow>
          (case patch_spawn_modes original mode of
             Inl e \<Rightarrow> Raised e
           | Inr (patched0, cfg_blocks, urdf_seen, usd_seen) \<Rightarrow>
               (let patched = (if dom values \<noteq> {} then replace_dir_assignments patched0 values
                               else patched0)
                in if patched \<noteq> original
                   then Returned 0 (Some patched) (if no_backup then None else Some original)
                   else Returned 0 None None)))"

declare locate_loop.simps [simp del]
declare patch_loop.simps [simp del]

section \<open>Notions of the specification\<close>

text \<open>
  The terminator of a line, as \<^verbatim>\<open>splitlines\<close> reads it: CR LF, or one line boundary
  character, at the end of the line; empty when the line ends otherwise.
\<close>

definition terminator :: "ustring \<Rightarrow> ustring" where
  "terminator s =
     (if 2 \<le> length s \<and> drop (length s - 2) s = [CR, LF] then [CR, LF]
      else if s \<noteq> [] \<and> is_linebreak (last s) then [last s]
      else [])"

text \<open>
  What is left of the content of a commented line, \<^verbatim>\<open>#\<close> followed by \<open>u\<close>, when the
  marker and at most one whitespace character after it are stripped. A line carries two
  markers when its content begins with the marker and what is left begins, after spaces
  and tabs, with a marker again.
\<close>

definition after_marker :: "ustring \<Rightarrow> ustring" where
  "after_marker u = (if u \<noteq> [] \<and> is_space (hd u) then tl u else u)"

definition two_markers :: "ustring \<Rightarrow> bool" where
  "two_markers L \<longleftrightarrow>
     (case dropWhile is_blank L of
        [] \<Rightarrow> False
      | c # u \<Rightarrow> c = HASH \<and> startswith (dropWhile is_blank (after_marker u)) [HASH])"

text \<open>
  The depth counter of the region locator, as the specification describes it, stated
  without the scan: over all the characters of the lines \<open>start\<close> to \<open>i\<close>, the depth is
  the number of opening delimiters minus the number of closing delimiters (each opening
  one adds 1 to a depth that starts at 0, each closing one subtracts 1), and started is
  true when an opening delimiter occurs among them. The region is balanced at \<open>i\<close> when
  started is true and the depth is at most 0.
\<close>

definition region_text :: "ustring list \<Rightarrow> nat \<Rightarrow> nat \<Rightarrow> ustring" where
  "region_text lines start i = concat (take (i + 1 - start) (drop start lines))"

definition depth_after :: "ustring list \<Rightarrow> nat \<Rightarrow> nat \<Rightarrow> int" where
  "depth_after lines start i =
     int (length (filter (\<lambda>c. c = LPAREN) (region_text lines start i))) -
     int (length (filter (\<lambda>c. c = RPAREN) (region_text lines start i)))"

definition started_after :: "ustring list \<Rightarrow> nat \<Rightarrow> nat \<Rightarrow> bool" where
  "started_after lines start i \<longleftrightarrow> LPAREN \<in> set (region_text lines start i)"

definition balanced_at :: "ustring list \<Rightarrow> nat \<Rightarrow> nat \<Rightarrow> bool" where
  "balanced_at lines start i \<longleftrightarrow> started_after lines start i \<and> depth_after lines start i \<le> 0"

text \<open>
  The footer of a sub-block, as the specification describes it: \<open>j\<close> is the first line
  strictly after \<open>i\<close> that matches the footer pattern.
\<close>

definition first_footer_after :: "ustring list \<Rightarrow> nat \<Rightarrow> nat \<Rightarrow> bool" where
  "first_footer_after lines i j \<longleftrightarrow>
     i < j \<and> j < length lines \<and> spawn_footer (lines ! j) \<and>
     (\<forall>k. i < k \<and> k < j \<longrightarrow> \<not> spawn_footer (lines ! k))"

text \<open>
  The kind of a header line: the kind group of the header pattern is one of the two
  class names.
\<close>

datatype kind = Urdf | Usd

definition header_kind :: "ustring \<Rightarrow> kind option" where
  "header_kind ln =
     (case spawn_header ln of
        None \<Rightarrow> None
      | Some (indent, prefix, k) \<Rightarrow>
          if k = str ''UnitreeUrdfFileCfg'' then Some Urdf
          else if k = str ''UnitreeUsdFileCfg'' then Some Usd
          else None)"

text \<open>
  The sub-blocks of a region, as the specification describes the walk, stated with
  searches that stay inside the region: from the line \<open>i\<close>, the next block starts at the
  first header line \<open>h\<close> of the region at or after \<open>i\<close>, and ends at the first footer line
  \<open>j\<close> of the region after \<open>h\<close>; the blocks that follow are those from the line \<open>j + 1\<close>.
  A header with no footer in the region ends the walk: no later header has one either.
  The span of a kind is the span of the first block of that kind.
\<close>

lemma find_upt_Some_iff:
  "List.find P [a..<b] = Some x \<longleftrightarrow> a \<le> x \<and> x < b \<and> P x \<and> (\<forall>y. a \<le> y \<and> y < x \<longrightarrow> \<not> P y)"
proof
  assume "List.find P [a..<b] = Some x"
  then obtain n where n: "n < length [a..<b]" "P ([a..<b] ! n)" "x = [a..<b] ! n"
    "\<forall>m<n. \<not> P ([a..<b] ! m)" unfolding find_Some_iff by blast
  from n(1) have nb: "a + n < b" by simp
  with n(3) have x: "x = a + n" by simp
  have "\<not> P y" if "a \<le> y \<and> y < x" for y
  proof -
    from that x have m: "y - a < n" and y: "a + (y - a) = y" by auto
    from m nb have "[a..<b] ! (y - a) = a + (y - a)" by (intro nth_upt) simp
    with n(4) m y show ?thesis by auto
  qed
  with n(2) nb x show "a \<le> x \<and> x < b \<and> P x \<and> (\<forall>y. a \<le> y \<and> y < x \<longrightarrow> \<not> P y)" by simp
next
  assume r: "a \<le> x \<and> x < b \<and> P x \<and> (\<forall>y. a \<le> y \<and> y < x \<longrightarrow> \<not> P y)"
  then have n: "x - a < length [a..<b]" and e: "[a..<b] ! (x - a) = x" by auto
  have "\<not> P ([a..<b] ! m)" if "m < x - a" for m
  proof -
    from that r have "a + m < b" by linarith
    then have "[a..<b] ! m = a + m" by (rule nth_upt)
    with that r show ?thesis by simp
  qed
  with n e r show "List.find P [a..<b] = Some x"
    unfolding find_Some_iff by (intro exI [of _ "x - a"]) simp
qed

lemma find_upt_None_iff:
  "List.find P [a..<b] = None \<longleftrightarrow> (\<forall>y. a \<le> y \<and> y < b \<longrightarrow> \<not> P y)"
  by (auto simp: find_None_iff)

definition next_header :: "ustring list \<Rightarrow> nat \<Rightarrow> int \<Rightarrow> nat option" where
  "next_header lines i region_end =
     List.find (\<lambda>h. header_kind (lines ! h) \<noteq> None) [i ..< nat (region_end + 1)]"

definition first_footer_idx :: "ustring list \<Rightarrow> nat \<Rightarrow> int \<Rightarrow> nat option" where
  "first_footer_idx lines h region_end =
     List.find (\<lambda>j. spawn_footer (lines ! j)) [h + 1 ..< nat (region_end + 1)]"

function region_blocks :: "ustring list \<Rightarrow> nat \<Rightarrow> int \<Rightarrow> (kind \<times> span) list" where
  "region_blocks lines i region_end =
     (case next_header lines i region_end of
        None \<Rightarrow> []
      | Some h \<Rightarrow>
          (case header_kind (lines ! h) of
             None \<Rightarrow> []
           | Some k \<Rightarrow>
               (case first_footer_idx lines h region_end of
                  None \<Rightarrow> []
                | Some j \<Rightarrow> (k, (h, j)) # region_blocks lines (j + 1) region_end)))"
  by pat_completeness auto
termination
  by (relation "measure (\<lambda>(lines, i, region_end). nat (region_end + 1 - int i))")
    (auto simp: next_header_def first_footer_idx_def find_upt_Some_iff)

declare region_blocks.simps [simp del]

definition block_of :: "kind \<Rightarrow> (kind \<times> span) list \<Rightarrow> span option" where
  "block_of k blocks = map_option snd (List.find (\<lambda>b. fst b = k) blocks)"

text \<open>
  The first block of a region from the line \<open>region_start\<close>, stated without the walk:
  \<open>h\<close> is the first header line from \<open>region_start\<close>, its kind is \<open>k\<close>, and \<open>j\<close> is the
  first footer line after \<open>h\<close>, not after the region's end.
\<close>

definition first_block :: "ustring list \<Rightarrow> nat \<Rightarrow> int \<Rightarrow> kind \<Rightarrow> span \<Rightarrow> bool" where
  "first_block lines region_start region_end k sp \<longleftrightarrow>
     (case sp of (h, j) \<Rightarrow>
        region_start \<le> h \<and> header_kind (lines ! h) = Some k \<and>
        (\<forall>h'. region_start \<le> h' \<and> h' < h \<longrightarrow> header_kind (lines ! h') = None) \<and>
        first_footer_after lines h j \<and> int j \<le> region_end)"

text \<open>
  The line \<open>k\<close> lies in a span; the span that a mode enables and the one it disables;
  the line \<open>k\<close> after the switch of one region: uncommented in the enabled span,
  commented in the disabled span, the same elsewhere.
\<close>

definition in_span :: "nat \<Rightarrow> span option \<Rightarrow> bool" where
  "in_span k sp \<longleftrightarrow> (case sp of None \<Rightarrow> False | Some (s, e) \<Rightarrow> s \<le> k \<and> k \<le> e)"

definition enabled_span :: "ustring \<Rightarrow> span option \<Rightarrow> span option \<Rightarrow> span option" where
  "enabled_span mode urdf usd = (if mode = str ''urdf'' then urdf else usd)"

definition disabled_span :: "ustring \<Rightarrow> span option \<Rightarrow> span option \<Rightarrow> span option" where
  "disabled_span mode urdf usd = (if mode = str ''urdf'' then usd else urdf)"

definition toggle_line :: "ustring \<Rightarrow> span option \<Rightarrow> span option \<Rightarrow> ustring list \<Rightarrow> nat \<Rightarrow> ustring" where
  "toggle_line mode urdf usd lines k =
     (if in_span k (enabled_span mode urdf usd) then uncomment_line (lines ! k)
      else if in_span k (disabled_span mode urdf usd) then comment_line (lines ! k)
      else lines ! k)"

section \<open>Example documents\<close>

text \<open>
  A region with a URDF block, enabled, and a USD block, disabled, each with one line
  between its header and its footer.
\<close>

definition example_region :: "ustring list" where
  "example_region =
     [str ''R_CFG = UnitreeArticulationCfg(\<newline>'',
      str ''  spawn=UnitreeUrdfFileCfg(\<newline>'',
      str ''    fix_base=False,\<newline>'',
      str ''  ),\<newline>'',
      str ''  # spawn=UnitreeUsdFileCfg(\<newline>'',
      str ''  #   fix_base=False,\<newline>'',
      str ''  # ),\<newline>'',
      str '')\<newline>'']"

text \<open>A region whose opening parenthesis is never closed.\<close>

definition unbalanced_doc :: ustring where
  "unbalanced_doc =
     str ''G1_CFG = UnitreeArticulationCfg(\<newline>    spawn=UnitreeUsdFileCfg(\<newline>    ),\<newline>''"

definition unbalanced_lines :: "ustring list" where
  "unbalanced_lines =
     [str ''G1_CFG = UnitreeArticulationCfg(\<newline>'',
      str ''    spawn=UnitreeUsdFileCfg(\<newline>'',
      str ''    ),\<newline>'']"

text \<open>The strings on which the end pattern matches.\<close>
definition line_end :: "ustring \<Rightarrow> bool" where
  "line_end s \<longleftrightarrow> s = [] \<or> s = [LF] \<or> s = [LF, LF] \<or> s = [CR, LF] \<or> s = [CR, LF, LF]"

text \<open>The state of the region locator in which the scan stops.\<close>

definition closed_state :: "int \<times> bool \<Rightarrow> bool" where
  "closed_state st \<longleftrightarrow> (case st of (depth, started) \<Rightarrow> started \<and> depth \<le> 0)"

text \<open>
  What the sub-block finder reads of a header line: whether its kind ends with
  \<^verbatim>\<open>UrdfFileCfg\<close>, and whether it ends with \<^verbatim>\<open>UsdFileCfg\<close>.
\<close>

definition hdr_class :: "ustring \<Rightarrow> (bool \<times> bool) option" where
  "hdr_class ln =
     map_option (\<lambda>(indent, prefix, kind).
         (endswith kind (str ''UrdfFileCfg''), endswith kind (str ''UsdFileCfg'')))
       (spawn_header ln)"

text \<open>
  A span of a kind inside the region \<open>bs\<close> to \<open>be\<close>: its header is a header of the kind
  and its footer the first footer after it, not after the region's end. Two spans of a
  region do not overlap.
\<close>

definition span_ok :: "ustring list \<Rightarrow> nat \<Rightarrow> int \<Rightarrow> bool \<Rightarrow> span \<Rightarrow> bool" where
  "span_ok lines bs be is_urdf sp \<longleftrightarrow>
     (case sp of (s, e) \<Rightarrow>
        bs \<le> s \<and> int e \<le> be \<and>
        (\<exists>u d. hdr_class (lines ! s) = Some (u, d) \<and> (if is_urdf then u else d)) \<and>
        first_footer_after lines s e)"

definition spans_ok :: "ustring list \<Rightarrow> nat \<Rightarrow> int \<Rightarrow> span option \<Rightarrow> span option \<Rightarrow> bool" where
  "spans_ok lines bs be urdf usd \<longleftrightarrow>
     (\<forall>sp. urdf = Some sp \<longrightarrow> span_ok lines bs be True sp) \<and>
     (\<forall>sp. usd = Some sp \<longrightarrow> span_ok lines bs be False sp) \<and>
     (\<forall>a b. urdf = Some a \<and> usd = Some b \<longrightarrow> snd a < fst b \<or> snd b < fst a)"


text \<open>The span found so far, if any, else the other one.\<close>

definition or_else :: "'a option \<Rightarrow> 'a option \<Rightarrow> 'a option" where
  "or_else a b = (case a of None \<Rightarrow> b | Some x \<Rightarrow> Some x)"
lemmas nl_unf = NL_RE_def rx_bind_def rx_cat_def rx_optt_def rx_alt_def rx_ret_def rx_chr_def rx_cls_def

lemma NL_RE_Nil: "NL_RE [] = []" by (simp add: nl_unf)
lemma NL_RE_LF: "NL_RE (LF # t) = [([LF], t)]" by (simp add: nl_unf)
lemma NL_RE_CR: "NL_RE [CR] = []" by (simp add: nl_unf)
lemma NL_RE_CRLF: "NL_RE (CR # LF # u) = [([CR, LF], u)]" by (simp add: nl_unf)
lemma NL_RE_CR_other: "d \<noteq> LF \<Longrightarrow> NL_RE (CR # d # u) = []" by (simp add: nl_unf)
lemma NL_RE_other: "c \<noteq> LF \<Longrightarrow> c \<noteq> CR \<Longrightarrow> NL_RE (c # t) = []" by (simp add: nl_unf)

lemma concat_map_if_filter:
  "concat (map (\<lambda>x. if P x then [x] else []) xs) = filter P xs"
  by (induction xs) auto

lemma eol_filter:
  "concat (map (\<lambda>(a, r). rx_bind rx_eol (\<lambda>_. rx_ret a) r) xs)
     = filter (\<lambda>(nl, r). r = [] \<or> r = [LF]) xs"
  by (induction xs) (auto simp: rx_bind_def rx_eol_def rx_ret_def)

lemma LINE_END_RE_filter:
  "LINE_END_RE s = filter (\<lambda>(nl, r). r = [] \<or> r = [LF]) (rx_opt NL_RE s)"
  by (simp add: LINE_END_RE_def rx_bind_def [of "rx_opt NL_RE"] eol_filter)

lemma LINE_END_RE_Nil: "LINE_END_RE [] = [(None, [])]"
  by (simp add: LINE_END_RE_filter rx_opt_def NL_RE_Nil)
lemma LINE_END_RE_LF: "LINE_END_RE [LF] = [(Some [LF], []), (None, [LF])]"
  by (simp add: LINE_END_RE_filter rx_opt_def NL_RE_LF)
lemma LINE_END_RE_LFLF: "LINE_END_RE [LF, LF] = [(Some [LF], [LF])]"
  by (simp add: LINE_END_RE_filter rx_opt_def NL_RE_LF)
lemma LINE_END_RE_CRLF: "LINE_END_RE [CR, LF] = [(Some [CR, LF], [])]"
  by (simp add: LINE_END_RE_filter rx_opt_def NL_RE_CRLF)
lemma LINE_END_RE_CRLFLF: "LINE_END_RE [CR, LF, LF] = [(Some [CR, LF], [LF])]"
  by (simp add: LINE_END_RE_filter rx_opt_def NL_RE_CRLF)
lemma LINE_END_RE_other:
  assumes "c \<noteq> LF" "c \<noteq> CR"
  shows "LINE_END_RE (c # t) = []"
  using assms by (simp add: LINE_END_RE_filter rx_opt_def NL_RE_other)

lemma LINE_END_RE_not: "\<not> line_end s \<Longrightarrow> LINE_END_RE s = []"
proof -
  assume n: "\<not> line_end s"
  have f: "filter (\<lambda>(nl, r). r = [] \<or> r = [LF]) ([(None, s)] :: (ustring option \<times> ustring) list) = []"
    using n by (simp add: line_end_def)
  show ?thesis
  proof (cases s)
    case Nil with n show ?thesis by (simp add: line_end_def)
  next
    case (Cons c t)
    consider "c = LF" | "c = CR" | "c \<noteq> LF" "c \<noteq> CR" by blast
    then show ?thesis
    proof cases
      case 1
      with Cons n show ?thesis
        by (simp add: LINE_END_RE_filter rx_opt_def NL_RE_LF line_end_def)
    next
      case 2
      show ?thesis
      proof (cases t)
        case Nil
        with 2 Cons show ?thesis by (simp add: LINE_END_RE_filter rx_opt_def NL_RE_CR)
      next
        case (Cons d u)
        show ?thesis
        proof (cases "d = LF")
          case True
          with 2 Cons \<open>s = c # t\<close> n show ?thesis
            by (simp add: LINE_END_RE_filter rx_opt_def NL_RE_CRLF line_end_def)
        next
          case False
          with 2 Cons \<open>s = c # t\<close> show ?thesis
            by (simp add: LINE_END_RE_filter rx_opt_def NL_RE_CR_other)
        qed
      qed
    next
      case 3
      with Cons show ?thesis by (simp add: LINE_END_RE_other)
    qed
  qed
qed


subsection \<open>General facts on the combinators\<close>

lemma rx_bind_star_Nil: "rx_bind (rx_star P) f [] = f [] []"
  by (simp add: rx_bind_def)

lemma rx_bind_star_Cons:
  "rx_bind (rx_star P) f (x # xs) =
     (if P x then rx_bind (rx_star P) (\<lambda>m. f (x # m)) xs else []) @ f [] (x # xs)"
  by (simp add: rx_bind_def map_concat comp_def split_def)

lemma rx_bind_lazy_Nil: "rx_bind (rx_lazy P) f [] = f [] []"
  by (simp add: rx_bind_def)

lemma rx_bind_lazy_Cons:
  "rx_bind (rx_lazy P) f (x # xs) =
     f [] (x # xs) @ (if P x then rx_bind (rx_lazy P) (\<lambda>m. f (x # m)) xs else [])"
  by (simp add: rx_bind_def comp_def split_def)

lemma rx_bind_map:
  assumes "\<And>a r. f' a r = map g (f a r)"
  shows "rx_bind p f' s = map g (rx_bind p f s)"
  by (simp add: rx_bind_def map_concat comp_def split_def assms)

lemma rx_bind_ret: "rx_bind p (\<lambda>a. rx_ret (h a)) s = map (\<lambda>(a, r). (h a, r)) (p s)"
  by (induction "p s" arbitrary: s) (auto simp: rx_bind_def rx_ret_def split_def)

lemma re_match_None_iff: "re_match p s = None \<longleftrightarrow> p s = []"
  by (auto simp: re_match_def split: list.splits)

lemma re_match_Some_iff: "re_match p s = Some a \<longleftrightarrow> (\<exists>r more. p s = (a, r) # more)"
  by (auto simp: re_match_def split: list.splits)

text \<open>A greedy star whose continuation cannot start with a character of the class
  takes the longest run: no shorter one matches.\<close>

lemma rx_bind_star_excl:
  assumes "\<And>m c t. P c \<Longrightarrow> f m (c # t) = []"
  shows "rx_bind (rx_star P) f s = f (takeWhile P s) (dropWhile P s)"
  using assms
proof (induction s arbitrary: f)
  case Nil
  show ?case by (simp add: rx_bind_star_Nil)
next
  case (Cons x xs)
  show ?case
  proof (cases "P x")
    case True
    have "rx_bind (rx_star P) (\<lambda>m. f (x # m)) xs = f (x # takeWhile P xs) (dropWhile P xs)"
      by (rule Cons.IH) (rule Cons.prems)
    with True Cons.prems [of x "[]" xs] show ?thesis
      by (simp add: rx_bind_star_Cons)
  next
    case False
    then show ?thesis by (simp add: rx_bind_star_Cons)
  qed
qed

text \<open>A greedy star whose continuation fails on a shorter run whenever it fails on the
  run one longer: the first match takes the longest run.\<close>

lemma star_fail_chain:
  assumes step: "\<And>m c t. P c \<Longrightarrow> f (m @ [c]) t = [] \<Longrightarrow> f m (c # t) = []"
    and "\<forall>c\<in>set pre. P c" and "f (m @ pre) t = []"
  shows "f m (pre @ t) = []"
  using assms(2,3)
proof (induction pre arbitrary: t rule: rev_induct)
  case Nil
  then show ?case by simp
next
  case (snoc c pre)
  from snoc.prems have "f ((m @ pre) @ [c]) t = []" by simp
  with snoc.prems(1) have "f (m @ pre) (c # t) = []" by (intro step) auto
  with snoc.IH [of "c # t"] snoc.prems(1) show ?case by simp
qed

lemma rx_bind_star_first:
  assumes step: "\<And>m c t. P c \<Longrightarrow> f (m @ [c]) t = [] \<Longrightarrow> f m (c # t) = []"
  shows "re_match (rx_bind (rx_star P) f) s = re_match (f (takeWhile P s)) (dropWhile P s)"
  using step
proof (induction s arbitrary: f)
  case Nil
  show ?case by (simp add: rx_bind_star_Nil re_match_def)
next
  case (Cons x xs)
  show ?case
  proof (cases "P x")
    case False
    then show ?thesis by (simp add: rx_bind_star_Cons re_match_def)
  next
    case True
    let ?g = "\<lambda>m. f (x # m)"
    have g: "\<And>m c t. P c \<Longrightarrow> ?g (m @ [c]) t = [] \<Longrightarrow> ?g m (c # t) = []"
      using Cons.prems [of _ "x # _"] by simp
    have ih: "re_match (rx_bind (rx_star P) ?g) xs = re_match (?g (takeWhile P xs)) (dropWhile P xs)"
      by (rule Cons.IH) (rule g)
    show ?thesis
    proof (cases "?g (takeWhile P xs) (dropWhile P xs)")
      case Nil
      then have "f ([] @ (x # takeWhile P xs)) (dropWhile P xs) = []" by simp
      then have "f [] ((x # takeWhile P xs) @ dropWhile P xs) = []"
        by (intro star_fail_chain [where P = P and f = f]) (use Cons.prems True in \<open>auto dest: set_takeWhileD\<close>)
      then have "f [] (x # xs) = []" by simp
      moreover from ih Nil have "rx_bind (rx_star P) ?g xs = []"
        by (simp add: re_match_def split: list.splits prod.splits)
      ultimately show ?thesis using True Nil
        by (simp add: rx_bind_star_Cons re_match_def)
    next
      case (Cons y ys)
      with ih obtain r zs where "rx_bind (rx_star P) ?g xs = (fst y, r) # zs"
        by (auto simp: re_match_def split: list.splits prod.splits)
      with True Cons show ?thesis
        by (simp add: rx_bind_star_Cons re_match_def split: prod.splits)
    qed
  qed
qed


subsection \<open>The line tail\<close>

lemma LINE_END_RE_sound:
  assumes "LINE_END_RE s = (nl, r) # more"
  shows "s = or_empty nl @ r \<and>
     (nl = None \<and> r = [] \<or> (nl = Some [LF] \<or> nl = Some [CR, LF]) \<and> (r = [] \<or> r = [LF]))"
proof (cases "line_end s")
  case False
  with assms show ?thesis by (simp add: LINE_END_RE_not)
next
  case True
  then consider "s = []" | "s = [LF]" | "s = [LF, LF]" | "s = [CR, LF]" | "s = [CR, LF, LF]"
    unfolding line_end_def by blast
  then show ?thesis
  proof cases
    case 1 with assms show ?thesis by (auto simp: LINE_END_RE_Nil or_empty_def)
  next
    case 2 with assms show ?thesis by (auto simp: LINE_END_RE_LF or_empty_def)
  next
    case 3 with assms show ?thesis by (auto simp: LINE_END_RE_LFLF or_empty_def)
  next
    case 4 with assms show ?thesis by (auto simp: LINE_END_RE_CRLF or_empty_def)
  next
    case 5 with assms show ?thesis by (auto simp: LINE_END_RE_CRLFLF or_empty_def)
  qed
qed

lemma LINE_TAIL_RE_Nil: "LINE_TAIL_RE [] = [(([], None), [])]"
  by (simp add: LINE_TAIL_RE_def rx_bind_lazy_Nil rx_bind_ret LINE_END_RE_Nil)

lemma LINE_TAIL_RE_Cons:
  "LINE_TAIL_RE (c # s) =
     map (\<lambda>(nl, r). (([], nl), r)) (LINE_END_RE (c # s)) @
     (if c \<noteq> LF then map (\<lambda>((rest, nl), r). ((c # rest, nl), r)) (LINE_TAIL_RE s) else [])"
proof -
  have "rx_bind (rx_lazy is_dot) (\<lambda>m. rx_bind LINE_END_RE (\<lambda>nl. rx_ret (c # m, nl))) s =
        map (\<lambda>((rest, nl), r). ((c # rest, nl), r))
          (rx_bind (rx_lazy is_dot) (\<lambda>m. rx_bind LINE_END_RE (\<lambda>nl. rx_ret (m, nl))) s)"
    by (rule rx_bind_map) (simp add: rx_bind_ret split_def comp_def)
  then show ?thesis
    by (simp add: LINE_TAIL_RE_def rx_bind_lazy_Cons rx_bind_ret is_dot_def)
qed

lemma LINE_TAIL_RE_skip:
  assumes "c \<noteq> LF" "c \<noteq> CR"
  shows "LINE_TAIL_RE (c # s) = map (\<lambda>((rest, nl), r). ((c # rest, nl), r)) (LINE_TAIL_RE s)"
  using assms by (simp add: LINE_TAIL_RE_Cons LINE_END_RE_other)

text \<open>What the first match of the tail captures.\<close>

lemma LINE_TAIL_RE_sound:
  assumes "LINE_TAIL_RE s = ((rest, nl), r) # more"
  shows "s = rest @ or_empty nl @ r \<and> LF \<notin> set rest \<and>
     (nl = None \<and> r = [] \<or> (nl = Some [LF] \<or> nl = Some [CR, LF]) \<and> (r = [] \<or> r = [LF]))"
  using assms
proof (induction s arbitrary: rest nl r more)
  case Nil
  then show ?case by (simp add: LINE_TAIL_RE_Nil or_empty_def)
next
  case (Cons c s)
  show ?case
  proof (cases "LINE_END_RE (c # s)")
    case (Cons e es)
    obtain nl' r' where e: "e = (nl', r')" by (cases e)
    with Cons Cons.prems have "rest = []" "nl = nl'" "r = r'"
      by (simp_all add: LINE_TAIL_RE_Cons)
    with LINE_END_RE_sound [of "c # s" nl' r' es] Cons e show ?thesis by simp
  next
    case Nil
    show ?thesis
    proof (cases "c = LF")
      case True
      with Nil Cons.prems show ?thesis by (simp add: LINE_TAIL_RE_Cons)
    next
      case False
      with Nil Cons.prems obtain rest' more' where
        "LINE_TAIL_RE s = ((rest', nl), r) # more'" "rest = c # rest'"
        by (auto simp: LINE_TAIL_RE_Cons map_eq_Cons_conv)
      with Cons.IH [of rest' nl r more'] False show ?thesis by simp
    qed
  qed
qed

subsection \<open>The two line patterns\<close>

lemma COMMENT_RE_match:
  "re_match COMMENT_RE s =
     map_option (\<lambda>(rest, nl). (takeWhile is_blank s, rest, nl))
       (re_match LINE_TAIL_RE (dropWhile is_blank s))"
proof -
  let ?f = "\<lambda>indent. rx_bind LINE_TAIL_RE (\<lambda>(rest, nl). rx_ret (indent, rest, nl))"
  have f: "?f m t = map (\<lambda>((rest, nl), r). ((m, rest, nl), r)) (LINE_TAIL_RE t)" for m t
    using rx_bind_ret [of LINE_TAIL_RE "\<lambda>(rest, nl). (m, rest, nl)" t]
    by (simp add: split_def)
  have "re_match (rx_bind (rx_star is_blank) ?f) s
      = re_match (?f (takeWhile is_blank s)) (dropWhile is_blank s)"
  proof (rule rx_bind_star_first)
    fix m c t
    assume "is_blank c" and "?f (m @ [c]) t = []"
    then have "LINE_TAIL_RE t = []" "c \<noteq> LF" "c \<noteq> CR"
      by (simp_all add: f is_blank_def, auto)
    then show "?f m (c # t) = []" by (simp add: f LINE_TAIL_RE_skip)
  qed
  then show ?thesis
    by (simp add: COMMENT_RE_def f re_match_def split: list.splits prod.splits)
qed

lemma rx_bind_cls_Nil: "rx_bind (rx_cls P) f [] = []"
  by (simp add: rx_bind_def rx_cls_def)

lemma rx_bind_cls_Cons: "rx_bind (rx_cls P) f (x # xs) = (if P x then f [x] xs else [])"
  by (simp add: rx_bind_def rx_cls_def)

lemma rx_bind_chr_Nil: "rx_bind (rx_chr c) f [] = []"
  by (simp add: rx_chr_def rx_bind_cls_Nil)

lemma rx_bind_chr_Cons: "rx_bind (rx_chr c) f (x # xs) = (if x = c then f [x] xs else [])"
  by (simp add: rx_chr_def rx_bind_cls_Cons)

lemma rx_bind_ret_left: "rx_bind (rx_ret a) f = f a"
  by (rule ext) (simp add: rx_bind_def rx_ret_def)

lemma rx_bind_alt: "rx_bind (rx_alt p q) f s = rx_bind p f s @ rx_bind q f s"
  by (simp add: rx_bind_def rx_alt_def)

lemma rx_bind_optt: "rx_bind (rx_optt p) f s = rx_bind p f s @ f [] s"
  by (simp add: rx_optt_def rx_bind_alt rx_bind_ret_left)

lemma rx_bind_opt: "rx_bind (rx_opt p) f s = rx_bind p (\<lambda>a. f (Some a)) s @ f None s"
  by (simp add: rx_bind_def rx_opt_def comp_def split_def)

lemma concat_map_concat_map:
  "concat (map g (concat (map f xs))) = concat (map (\<lambda>x. concat (map g (f x))) xs)"
  by (induction xs) auto

lemma rx_bind_assoc: "rx_bind (rx_bind p f) g = rx_bind p (\<lambda>a. rx_bind (f a) g)"
  by (rule ext) (simp add: rx_bind_def concat_map_concat_map split_def)

lemma rx_bind_cat: "rx_bind (rx_cat p q) f s = rx_bind p (\<lambda>a. rx_bind q (\<lambda>b. f (a @ b))) s"
  by (simp add: rx_cat_def rx_bind_assoc rx_bind_ret_left)

lemma rx_bind_lit:
  "rx_bind (rx_lit w) f s = (if take (length w) s = w then f w (drop (length w) s) else [])"
  by (simp add: rx_bind_def rx_lit_def)

lemma rx_bind_eol: "rx_bind rx_eol f s = (if s = [] \<or> s = [LF] then f () s else [])"
  by (simp add: rx_bind_def rx_eol_def)

lemma rx_bind_tail_ret:
  "rx_bind LINE_TAIL_RE (\<lambda>(rest, nl). rx_ret (m, rest, nl)) t
      = map (\<lambda>((rest, nl), r). ((m, rest, nl), r)) (LINE_TAIL_RE t)"
  using rx_bind_ret [of LINE_TAIL_RE "\<lambda>(rest, nl). (m, rest, nl)" t]
  by (simp add: split_def)

lemma UNCOMMENT_RE_split:
  "UNCOMMENT_RE s =
     rx_bind (rx_chr HASH) (\<lambda>_.
     rx_bind (rx_optt (rx_cls is_space)) (\<lambda>_.
     rx_bind LINE_TAIL_RE (\<lambda>(rest, nl). rx_ret (takeWhile is_blank s, rest, nl))))
       (dropWhile is_blank s)"
  unfolding UNCOMMENT_RE_def
  by (rule rx_bind_star_excl) (auto simp: rx_bind_chr_Cons is_blank_def)

lemma UNCOMMENT_RE_nohash:
  assumes "\<not> startswith (dropWhile is_blank s) [HASH]"
  shows "UNCOMMENT_RE s = []"
proof (cases "dropWhile is_blank s")
  case Nil
  show ?thesis
    by (simp only: UNCOMMENT_RE_split Nil rx_bind_chr_Nil)
next
  case (Cons c t)
  with assms have "c \<noteq> HASH" by (simp add: startswith_def)
  then show ?thesis
    by (simp only: UNCOMMENT_RE_split Cons rx_bind_chr_Cons if_False)
qed

lemma UNCOMMENT_RE_hash_space:
  assumes "dropWhile is_blank s = HASH # w # u" "is_space w"
  shows "UNCOMMENT_RE s =
     map (\<lambda>((rest, nl), r). ((takeWhile is_blank s, rest, nl), r)) (LINE_TAIL_RE u @ LINE_TAIL_RE (w # u))"
  using assms
  by (simp add: UNCOMMENT_RE_split rx_bind_chr_Cons rx_bind_optt rx_bind_cls_Cons rx_bind_tail_ret)

lemma UNCOMMENT_RE_hash_other:
  assumes "dropWhile is_blank s = HASH # u" "u = [] \<or> \<not> is_space (hd u)"
  shows "UNCOMMENT_RE s =
     map (\<lambda>((rest, nl), r). ((takeWhile is_blank s, rest, nl), r)) (LINE_TAIL_RE u)"
  using assms
  by (cases u)
    (simp_all add: UNCOMMENT_RE_split rx_bind_chr_Cons rx_bind_optt rx_bind_cls_Cons
      rx_bind_cls_Nil rx_bind_tail_ret)

subsection \<open>Python's strip\<close>

lemma strip_empty_iff: "strip s = [] \<longleftrightarrow> (\<forall>c\<in>set s. is_space c)"
proof
  assume "strip s = []"
  then have all: "\<forall>c\<in>set (dropWhile is_space s). is_space c"
    by (simp add: strip_def rstrip_def lstrip_def dropWhile_eq_Nil_conv)
  have "dropWhile is_space s = []"
  proof (rule ccontr)
    assume ne: "dropWhile is_space s \<noteq> []"
    then have "\<not> is_space (hd (dropWhile is_space s))" by (rule hd_dropWhile)
    moreover from ne have "hd (dropWhile is_space s) \<in> set (dropWhile is_space s)" by simp
    ultimately show False using all by blast
  qed
  then show "\<forall>c\<in>set s. is_space c" by (simp add: dropWhile_eq_Nil_conv)
next
  assume "\<forall>c\<in>set s. is_space c"
  then have "dropWhile is_space s = []" by (simp add: dropWhile_eq_Nil_conv)
  then show "strip s = []" by (simp only: strip_def rstrip_def lstrip_def) simp
qed

lemma not_space_HASH: "\<not> is_space HASH"
  by (simp add: is_space_def)

lemma blank_is_space: "is_blank c \<Longrightarrow> is_space c"
  by (auto simp: is_blank_def is_space_def)

lemma lstrip_HASH: "lstrip (HASH # s) = HASH # s"
  by (simp add: lstrip_def not_space_HASH)

subsection \<open>comment and uncomment\<close>

lemma takeWhile_run:
  assumes "\<forall>x\<in>set pre. P x" "\<not> P c"
  shows "takeWhile P (pre @ c # t) = pre" and "dropWhile P (pre @ c # t) = c # t"
  using assms by (simp_all add: takeWhile_append2 dropWhile_append2)

lemma blank_run_takeWhile: "\<forall>x\<in>set (takeWhile is_blank s). is_blank x"
  by (auto dest: set_takeWhileD)

lemma not_blank_HASH: "\<not> is_blank HASH"
  by (simp add: is_blank_def)

lemma strip_nonempty_HASH: "HASH \<in> set s \<Longrightarrow> strip s \<noteq> []"
  using not_space_HASH by (auto simp: strip_empty_iff)

text \<open>A line whose first character after its spaces and tabs is the marker is left
  alone by \<open>comment_line\<close>.\<close>

lemma comment_line_commented:
  assumes "dropWhile is_blank s = HASH # t"
  shows "comment_line s = s"
proof (cases "re_match COMMENT_RE s")
  case None
  then show ?thesis by (simp add: comment_line_def)
next
  case (Some g)
  obtain indent rest nl where g: "g = (indent, rest, nl)" by (cases g)
  from Some g obtain r more where "LINE_TAIL_RE (HASH # t) = ((rest, nl), r) # more"
    by (auto simp: COMMENT_RE_match assms re_match_Some_iff)
  then obtain rest' where "rest = HASH # rest'"
    by (auto simp: LINE_TAIL_RE_skip map_eq_Cons_conv)
  then have "startswith (lstrip rest) [HASH]"
    by (simp add: lstrip_HASH startswith_def)
  with Some g show ?thesis by (simp add: comment_line_def)
qed

text \<open>Otherwise, when it changes the line, it puts the marker and a space after the
  spaces and tabs.\<close>

lemma comment_line_changed:
  assumes "comment_line s \<noteq> s"
  obtains rest nl r more where
    "LINE_TAIL_RE (dropWhile is_blank s) = ((rest, nl), r) # more"
    "comment_line s = takeWhile is_blank s @ HASH # SP # rest @ or_empty nl"
proof -
  from assms obtain g where m: "re_match COMMENT_RE s = Some g"
    by (cases "re_match COMMENT_RE s") (auto simp: comment_line_def split: if_splits)
  obtain indent rest nl where g: "g = (indent, rest, nl)" by (cases g)
  from m g obtain r more where
    t: "LINE_TAIL_RE (dropWhile is_blank s) = ((rest, nl), r) # more"
    and i: "indent = takeWhile is_blank s"
    by (auto simp: COMMENT_RE_match re_match_Some_iff)
  from assms m g i have "comment_line s = takeWhile is_blank s @ HASH # SP # rest @ or_empty nl"
    by (auto simp: comment_line_def split: if_splits)
  with t show ?thesis by (rule that)
qed

lemma comment_line_idem: "comment_line (comment_line s) = comment_line s"
proof (cases "comment_line s = s")
  case True
  then show ?thesis by simp
next
  case False
  then obtain rest nl r more where
    c: "comment_line s = takeWhile is_blank s @ HASH # SP # rest @ or_empty nl"
    by (rule comment_line_changed)
  have "dropWhile is_blank (comment_line s) = HASH # SP # rest @ or_empty nl"
    unfolding c by (rule takeWhile_run) (auto simp: not_blank_HASH dest: set_takeWhileD)
  then show ?thesis by (rule comment_line_commented)
qed

lemma uncomment_line_nohash:
  assumes "\<not> startswith (dropWhile is_blank s) [HASH]"
  shows "uncomment_line s = s"
  using assms by (simp add: uncomment_line_def re_match_def UNCOMMENT_RE_nohash)

lemma uncomment_line_hash_space:
  assumes "dropWhile is_blank s = HASH # SP # u"
    and "LINE_TAIL_RE u = ((rest, nl), r) # more"
  shows "uncomment_line s = takeWhile is_blank s @ rest @ or_empty nl"
proof -
  have "HASH \<in> set (dropWhile is_blank s)" by (simp add: assms(1))
  then have "HASH \<in> set s" by (rule set_dropWhileD)
  then have "strip s \<noteq> []" by (rule strip_nonempty_HASH)
  moreover have "is_space SP" by (simp add: is_space_def)
  then have "re_match UNCOMMENT_RE s = Some (takeWhile is_blank s, rest, nl)"
    by (simp add: UNCOMMENT_RE_hash_space [OF assms(1)] assms(2) re_match_def)
  ultimately show ?thesis by (simp add: uncomment_line_def)
qed

lemma uncomment_comment:
  assumes line: "LF \<notin> set (butlast L)"
    and nomark: "\<not> startswith (dropWhile is_blank L) [HASH]"
  shows "uncomment_line (comment_line L) = L"
proof (cases "comment_line L = L")
  case True
  with nomark show ?thesis by (simp add: uncomment_line_nohash)
next
  case False
  then obtain rest nl r more where
    t: "LINE_TAIL_RE (dropWhile is_blank L) = ((rest, nl), r) # more"
    and c: "comment_line L = takeWhile is_blank L @ HASH # SP # rest @ or_empty nl"
    by (rule comment_line_changed)
  from LINE_TAIL_RE_sound [OF t] have
    d: "dropWhile is_blank L = rest @ or_empty nl @ r"
    and r: "nl = None \<and> r = [] \<or> (nl = Some [LF] \<or> nl = Some [CR, LF]) \<and> (r = [] \<or> r = [LF])"
    by simp_all
  have L: "L = takeWhile is_blank L @ rest @ or_empty nl @ r"
    using d takeWhile_dropWhile_id [of is_blank L] by simp
  have "r = []"
  proof (rule ccontr)
    assume "r \<noteq> []"
    with r have "r = [LF]" "LF \<in> set (or_empty nl)" by (auto simp: or_empty_def)
    then have "LF \<in> set (butlast (takeWhile is_blank L @ rest @ or_empty nl @ r))"
      by (simp add: butlast_append)
    with L line show False by simp
  qed
  with d t have t': "LINE_TAIL_RE (rest @ or_empty nl) = ((rest, nl), r) # more" by simp
  have dc: "dropWhile is_blank (comment_line L) = HASH # SP # rest @ or_empty nl"
    and tc: "takeWhile is_blank (comment_line L) = takeWhile is_blank L"
    unfolding c by (rule takeWhile_run; auto simp: not_blank_HASH dest: set_takeWhileD)+
  from uncomment_line_hash_space [OF dc t'] tc L \<open>r = []\<close> show ?thesis by simp
qed

subsection \<open>One marker at a time\<close>

lemma line_suffix: "LF \<notin> set (butlast (a @ b)) \<Longrightarrow> LF \<notin> set (butlast b)"
  by (simp add: butlast_append split: if_splits)

lemma line_tl: "LF \<notin> set (butlast s) \<Longrightarrow> LF \<notin> set (butlast (tl s))"
  by (cases s) (auto split: if_splits)

text \<open>On a line, the tail pattern matches the whole line.\<close>

lemma LINE_TAIL_RE_line:
  assumes "LF \<notin> set (butlast s)"
  shows "\<exists>rest nl more. LINE_TAIL_RE s = ((rest, nl), []) # more \<and> rest @ or_empty nl = s"
  using assms
proof (induction s)
  case Nil
  show ?case by (simp add: LINE_TAIL_RE_Nil or_empty_def)
next
  case (Cons c s)
  show ?case
  proof (cases "line_end (c # s)")
    case True
    with Cons.prems consider "c # s = [LF]" | "c # s = [CR, LF]"
      by (auto simp: line_end_def)
    then show ?thesis
    proof cases
      case 1
      then show ?thesis by (simp add: LINE_TAIL_RE_Cons LINE_END_RE_LF or_empty_def)
    next
      case 2
      then show ?thesis by (simp add: LINE_TAIL_RE_Cons LINE_END_RE_CRLF or_empty_def)
    qed
  next
    case False
    then have e: "LINE_END_RE (c # s) = []" by (rule LINE_END_RE_not)
    from False have "s \<noteq> [] \<or> c \<noteq> LF" by (auto simp: line_end_def)
    with Cons.prems have c: "c \<noteq> LF" by (cases s) auto
    from Cons.prems have "LF \<notin> set (butlast s)" by (cases s) (auto split: if_splits)
    from Cons.IH [OF this] obtain rest nl more where
      "LINE_TAIL_RE s = ((rest, nl), []) # more" "rest @ or_empty nl = s" by blast
    with e c show ?thesis by (simp add: LINE_TAIL_RE_Cons)
  qed
qed

text \<open>\<open>uncomment_line\<close> strips one marker and at most one whitespace character after it.\<close>

lemma uncomment_line_marked:
  assumes line: "LF \<notin> set (butlast L)" and d: "dropWhile is_blank L = HASH # u"
  shows "uncomment_line L = takeWhile is_blank L @ after_marker u"
proof -
  have "HASH \<in> set (dropWhile is_blank L)" by (simp add: d)
  then have "HASH \<in> set L" by (rule set_dropWhileD)
  then have ne: "strip L \<noteq> []" by (rule strip_nonempty_HASH)
  have L: "L = takeWhile is_blank L @ HASH # u"
    using takeWhile_dropWhile_id [of is_blank L] d by simp
  then have "LF \<notin> set (butlast (takeWhile is_blank L @ HASH # u))" using line by simp
  then have "LF \<notin> set (butlast (HASH # u))" by (rule line_suffix)
  then have lu: "LF \<notin> set (butlast u)" by (cases u) (auto split: if_splits)
  show ?thesis
  proof (cases "u \<noteq> [] \<and> is_space (hd u)")
    case True
    then obtain w u' where u: "u = w # u'" and w: "is_space w" by (cases u) auto
    from lu u have "LF \<notin> set (butlast u')" by (cases u') (auto split: if_splits)
    from LINE_TAIL_RE_line [OF this] obtain rest nl more where
      t: "LINE_TAIL_RE u' = ((rest, nl), []) # more" "rest @ or_empty nl = u'" by blast
    from d u have "dropWhile is_blank L = HASH # w # u'" by simp
    from UNCOMMENT_RE_hash_space [OF this w] t(1)
    have "re_match UNCOMMENT_RE L = Some (takeWhile is_blank L, rest, nl)"
      by (simp add: re_match_def)
    with ne t(2) u w show ?thesis by (simp add: uncomment_line_def after_marker_def)
  next
    case False
    from LINE_TAIL_RE_line [OF lu] obtain rest nl more where
      t: "LINE_TAIL_RE u = ((rest, nl), []) # more" "rest @ or_empty nl = u" by blast
    from False have "u = [] \<or> \<not> is_space (hd u)" by blast
    from UNCOMMENT_RE_hash_other [OF d this] t(1)
    have "re_match UNCOMMENT_RE L = Some (takeWhile is_blank L, rest, nl)"
      by (simp add: re_match_def)
    with ne t(2) show ?thesis using False by (auto simp add: uncomment_line_def after_marker_def)
  qed
qed

lemma after_marker_suffix: "\<exists>p. u = p @ after_marker u \<and> length p \<le> 1"
  by (cases u) (auto simp: after_marker_def intro: exI [of _ "[]"])

lemma uncomment_line_idem_iff:
  assumes line: "LF \<notin> set (butlast L)"
  shows "uncomment_line (uncomment_line L) = uncomment_line L \<longleftrightarrow> \<not> two_markers L"
proof (cases "dropWhile is_blank L")
  case Nil
  have "\<not> startswith (dropWhile is_blank L) [HASH]" unfolding Nil by (simp add: startswith_def)
  then have "uncomment_line L = L" by (rule uncomment_line_nohash)
  then show ?thesis unfolding two_markers_def Nil by simp
next
  case (Cons c u)
  show ?thesis
  proof (cases "c = HASH")
    case False
    have "\<not> startswith (dropWhile is_blank L) [HASH]"
      unfolding Cons using False by (simp add: startswith_def)
    then have "uncomment_line L = L" by (rule uncomment_line_nohash)
    then show ?thesis unfolding two_markers_def Cons using False by simp
  next
    case True
    with Cons have d: "dropWhile is_blank L = HASH # u" by simp
    let ?i = "takeWhile is_blank L" and ?a = "after_marker u"
    have X: "uncomment_line L = ?i @ ?a" using line d by (rule uncomment_line_marked)
    have blank: "\<forall>x\<in>set ?i. is_blank x" by (rule blank_run_takeWhile)
    then have dX: "dropWhile is_blank (?i @ ?a) = dropWhile is_blank ?a"
      by (simp add: dropWhile_append3 dropWhile_append)
    have tm: "two_markers L \<longleftrightarrow> startswith (dropWhile is_blank ?a) [HASH]"
      using d by (simp add: two_markers_def)
    show ?thesis
    proof (cases "startswith (dropWhile is_blank ?a) [HASH]")
      case False
      then have "uncomment_line (?i @ ?a) = ?i @ ?a"
        by (intro uncomment_line_nohash) (simp add: dX)
      with X tm False show ?thesis by simp
    next
      case True
      then obtain v where v: "dropWhile is_blank (?i @ ?a) = HASH # v"
        by (cases "dropWhile is_blank ?a") (auto simp: dX startswith_def)
      obtain p where p: "u = p @ ?a" by (metis after_marker_suffix)
      have "L = ?i @ HASH # u" using takeWhile_dropWhile_id [of is_blank L] d by simp
      with p have "L = (?i @ HASH # p) @ ?a" by simp
      with line have la: "LF \<notin> set (butlast ?a)" by (metis line_suffix)
      have "LF \<notin> set ?i" using blank by (auto simp: is_blank_def)
      then have "LF \<notin> set (butlast ?i)" by (auto dest: in_set_butlastD)
      with la \<open>LF \<notin> set ?i\<close> have lX: "LF \<notin> set (butlast (?i @ ?a))"
        by (simp add: butlast_append)
      have "uncomment_line (?i @ ?a) = takeWhile is_blank (?i @ ?a) @ after_marker v"
        using lX v by (rule uncomment_line_marked)
      moreover have "length (takeWhile is_blank (?i @ ?a) @ after_marker v) < length (?i @ ?a)"
      proof -
        have "length (?i @ ?a) = length (takeWhile is_blank (?i @ ?a)) + length (HASH # v)"
          using takeWhile_dropWhile_id [of is_blank "?i @ ?a"] v
          by (metis length_append)
        moreover have "length (after_marker v) \<le> length v"
          by (simp add: after_marker_def)
        ultimately show ?thesis by simp
      qed
      ultimately have "length (uncomment_line (?i @ ?a)) \<noteq> length (?i @ ?a)" by simp
      then have "uncomment_line (?i @ ?a) \<noteq> ?i @ ?a" by metis
      with X tm True show ?thesis by simp
    qed
  qed
qed

subsection \<open>What a pattern can match\<close>

lemma in_rx_bind:
  "(x, r) \<in> set (rx_bind p f s) \<longleftrightarrow> (\<exists>a r1. (a, r1) \<in> set (p s) \<and> (x, r) \<in> set (f a r1))"
  by (auto simp: rx_bind_def)

lemma in_rx_ret: "(x, r) \<in> set (rx_ret a s) \<longleftrightarrow> x = a \<and> r = s"
  by (auto simp: rx_ret_def)

lemma in_rx_cls: "(m, r) \<in> set (rx_cls P s) \<longleftrightarrow> (\<exists>c. P c \<and> m = [c] \<and> s = c # r)"
  by (auto simp: rx_cls_def split: list.splits)

lemma in_rx_chr: "(m, r) \<in> set (rx_chr c s) \<longleftrightarrow> m = [c] \<and> s = c # r"
  by (auto simp: rx_chr_def in_rx_cls)

lemma in_rx_lit: "(m, r) \<in> set (rx_lit w s) \<longleftrightarrow> m = w \<and> s = w @ r"
  by (auto simp: rx_lit_def) (metis append_take_drop_id)

lemma in_rx_alt: "x \<in> set (rx_alt p q s) \<longleftrightarrow> x \<in> set (p s) \<or> x \<in> set (q s)"
  by (simp add: rx_alt_def)

lemma in_rx_optt: "(m, r) \<in> set (rx_optt p s) \<longleftrightarrow> (m, r) \<in> set (p s) \<or> m = [] \<and> r = s"
  by (auto simp: rx_optt_def in_rx_alt in_rx_ret)

lemma in_rx_cat:
  "(m, r) \<in> set (rx_cat p q s) \<longleftrightarrow>
     (\<exists>a r1 b. (a, r1) \<in> set (p s) \<and> (b, r) \<in> set (q r1) \<and> m = a @ b)"
  by (auto simp: rx_cat_def in_rx_bind in_rx_ret)

lemma in_rx_star: "(m, r) \<in> set (rx_star P s) \<longleftrightarrow> s = m @ r \<and> (\<forall>c\<in>set m. P c)"
proof (induction s arbitrary: m)
  case Nil
  show ?case by auto
next
  case (Cons x xs)
  show ?case
  proof (cases m)
    case Nil
    then show ?thesis by auto
  next
    case (Cons y ys)
    then show ?thesis using Cons.IH [of ys] by auto
  qed
qed

lemma in_rx_lazy: "(m, r) \<in> set (rx_lazy P s) \<longleftrightarrow> s = m @ r \<and> (\<forall>c\<in>set m. P c)"
proof (induction s arbitrary: m)
  case Nil
  show ?case by auto
next
  case (Cons x xs)
  show ?case
  proof (cases m)
    case Nil
    then show ?thesis by auto
  next
    case (Cons y ys)
    then show ?thesis using Cons.IH [of ys] by auto
  qed
qed

lemma in_rx_eol: "(u, r) \<in> set (rx_eol s) \<longleftrightarrow> r = s \<and> (s = [] \<or> s = [LF])"
  by (auto simp: rx_eol_def)

lemma in_rx_opt:
  "(g, r) \<in> set (rx_opt p s) \<longleftrightarrow> (\<exists>a. g = Some a \<and> (a, r) \<in> set (p s)) \<or> g = None \<and> r = s"
  by (auto simp: rx_opt_def)

lemmas in_rx = in_rx_bind in_rx_ret in_rx_cls in_rx_chr in_rx_lit in_rx_alt in_rx_optt in_rx_cat
  in_rx_star in_rx_lazy in_rx_eol in_rx_opt

lemma re_match_SomeD: "re_match p s = Some a \<Longrightarrow> \<exists>r. (a, r) \<in> set (p s)"
  by (auto simp: re_match_def split: list.splits)

lemma rx_bind_fun_single: "rx_bind (\<lambda>s. [(a, s)]) f = f a"
  by (rule ext) (simp add: rx_bind_def)

lemma rx_bind_fun_nil: "rx_bind (\<lambda>s. []) f = (\<lambda>s. [])"
  by (rule ext) (simp add: rx_bind_def)

lemmas rx_eval = rx_bind_fun_single rx_bind_fun_nil rx_bind_star_Nil rx_bind_star_Cons rx_bind_lazy_Nil rx_bind_lazy_Cons
  rx_bind_cls_Nil rx_bind_cls_Cons rx_bind_chr_Nil rx_bind_chr_Cons rx_bind_optt rx_bind_opt
  rx_bind_cat rx_bind_lit rx_bind_eol rx_bind_alt rx_bind_ret_left rx_bind_assoc rx_ret_def re_match_def

lemmas py_eval = str_def strip_def lstrip_def rstrip_def rstrip_nl_def startswith_def or_empty_def
  is_space_def is_blank_def is_dot_def

lemmas line_re_eval = COMMENT_RE_def UNCOMMENT_RE_def LINE_TAIL_RE_def LINE_END_RE_def NL_RE_def

subsection \<open>The region locator\<close>

lemma scan_chars_append: "scan_chars (a @ b) st = scan_chars b (scan_chars a st)"
proof (induction a arbitrary: st)
  case Nil
  show ?case by (cases st) simp
next
  case (Cons c a)
  obtain d s where "st = (d, s)" by (cases st)
  with Cons show ?case by simp
qed

lemma scan_lines_Cons:
  "scan_lines (ln # rest) i st =
     (if closed_state (scan_chars ln st) then Some i
      else scan_lines rest (Suc i) (scan_chars ln st))"
  by (simp add: closed_state_def split: prod.splits)

lemma scan_lines_None:
  "scan_lines ls i st = None \<longleftrightarrow>
     (\<forall>n<length ls. \<not> closed_state (scan_chars (concat (take (Suc n) ls)) st))"
proof (induction ls arbitrary: i st)
  case Nil
  show ?case by simp
next
  case (Cons ln rest)
  show ?case
  proof (cases "closed_state (scan_chars ln st)")
    case True
    then have "\<exists>n<length (ln # rest). closed_state (scan_chars (concat (take (Suc n) (ln # rest))) st)"
      by (intro exI [of _ 0]) simp
    with True show ?thesis by (simp only: scan_lines_Cons if_True) blast
  next
    case False
    have "(\<forall>n<length (ln # rest). \<not> closed_state (scan_chars (concat (take (Suc n) (ln # rest))) st))
      \<longleftrightarrow> (\<forall>n<length rest. \<not> closed_state (scan_chars (concat (take (Suc n) rest)) (scan_chars ln st)))"
      (is "?L \<longleftrightarrow> ?R")
    proof
      assume l: ?L
      show ?R
      proof (intro allI impI)
        fix n assume "n < length rest"
        with l have "\<not> closed_state (scan_chars (concat (take (Suc (Suc n)) (ln # rest))) st)"
          by (metis Suc_less_eq length_Cons)
        then show "\<not> closed_state (scan_chars (concat (take (Suc n) rest)) (scan_chars ln st))"
          by (simp add: scan_chars_append)
      qed
    next
      assume r: ?R
      show ?L
      proof (intro allI impI)
        fix n assume n: "n < length (ln # rest)"
        show "\<not> closed_state (scan_chars (concat (take (Suc n) (ln # rest))) st)"
        proof (cases n)
          case 0
          with False show ?thesis by simp
        next
          case (Suc m)
          with n r show ?thesis by (simp add: scan_chars_append)
        qed
      qed
    qed
    with False Cons.IH [of "Suc i" "scan_chars ln st"] show ?thesis
      by (simp only: scan_lines_Cons if_False)
  qed
qed

lemma scan_lines_Some:
  assumes "scan_lines ls i st = Some r"
  shows "\<exists>n<length ls. r = i + n \<and> closed_state (scan_chars (concat (take (Suc n) ls)) st) \<and>
           (\<forall>m<n. \<not> closed_state (scan_chars (concat (take (Suc m) ls)) st))"
  using assms
proof (induction ls arbitrary: i st)
  case Nil
  then show ?case by simp
next
  case (Cons ln rest)
  show ?case
  proof (cases "closed_state (scan_chars ln st)")
    case True
    with Cons.prems have "r = i" by (simp add: scan_lines_Cons del: scan_lines.simps)
    with True show ?thesis by (intro exI [of _ 0]) simp
  next
    case False
    with Cons.prems have "scan_lines rest (Suc i) (scan_chars ln st) = Some r"
      by (simp add: scan_lines_Cons del: scan_lines.simps)
    from Cons.IH [OF this] obtain n where n: "n < length rest" "r = Suc i + n"
      "closed_state (scan_chars (concat (take (Suc n) rest)) (scan_chars ln st))"
      "\<forall>m<n. \<not> closed_state (scan_chars (concat (take (Suc m) rest)) (scan_chars ln st))"
      by blast
    have "\<not> closed_state (scan_chars (concat (take (Suc m) (ln # rest))) st)" if "m < Suc n" for m
    proof (cases m)
      case 0
      with False show ?thesis by simp
    next
      case (Suc k)
      with that n(4) show ?thesis by (simp add: scan_chars_append)
    qed
    with n show ?thesis
      by (intro exI [of _ "Suc n"]) (simp add: scan_chars_append)
  qed
qed

text \<open>The character loop computes the counter of the specification.\<close>

lemma scan_chars_count:
  "scan_chars cs (depth, started) =
     (depth + int (length (filter (\<lambda>c. c = LPAREN) cs)) - int (length (filter (\<lambda>c. c = RPAREN) cs)),
      started \<or> LPAREN \<in> set cs)"
  by (induction cs arbitrary: depth started) auto

lemma balanced_at_offset:
  "balanced_at lines start (start + n) \<longleftrightarrow>
     closed_state (scan_chars (concat (take (Suc n) (drop start lines))) (0, False))"
  by (simp add: balanced_at_def started_after_def depth_after_def region_text_def
      closed_state_def scan_chars_count)

lemma find_cfg_block_end_unbalanced:
  assumes "\<forall>k. start \<le> k \<and> k < length lines \<longrightarrow> \<not> balanced_at lines start k"
  shows "find_cfg_block_end lines start = int (length lines) - 1"
proof -
  have "scan_lines (drop start lines) start (0, False) = None"
    unfolding scan_lines_None
  proof (intro allI impI)
    fix n assume "n < length (drop start lines)"
    then have "start \<le> start + n \<and> start + n < length lines" by simp
    with assms have "\<not> balanced_at lines start (start + n)" by blast
    then show "\<not> closed_state (scan_chars (concat (take (Suc n) (drop start lines))) (0, False))"
      by (simp add: balanced_at_offset)
  qed
  then show ?thesis by (simp add: find_cfg_block_end_def)
qed

lemma find_cfg_block_end_balanced:
  assumes "start \<le> k" "k < length lines" "balanced_at lines start k"
  shows "\<exists>r. find_cfg_block_end lines start = int r \<and> start \<le> r \<and> r \<le> k \<and>
           balanced_at lines start r \<and> (\<forall>j. start \<le> j \<and> j < r \<longrightarrow> \<not> balanced_at lines start j)"
proof -
  let ?ls = "drop start lines"
  from assms have kn: "k - start < length ?ls" "k = start + (k - start)" by simp_all
  from assms(3) kn(2) have "closed_state (scan_chars (concat (take (Suc (k - start)) ?ls)) (0, False))"
    by (metis balanced_at_offset)
  with kn(1) have "scan_lines ?ls start (0, False) \<noteq> None"
    unfolding scan_lines_None by blast
  then obtain r where r: "scan_lines ?ls start (0, False) = Some r" by blast
  from scan_lines_Some [OF r] obtain n where n: "n < length ?ls" "r = start + n"
    "closed_state (scan_chars (concat (take (Suc n) ?ls)) (0, False))"
    "\<forall>m<n. \<not> closed_state (scan_chars (concat (take (Suc m) ?ls)) (0, False))"
    by blast
  have "r \<le> k"
  proof (rule ccontr)
    assume "\<not> r \<le> k"
    with n(2) have "k - start < n" using assms(1) by simp
    with n(4) \<open>closed_state (scan_chars (concat (take (Suc (k - start)) ?ls)) (0, False))\<close>
    show False by blast
  qed
  moreover have "\<not> balanced_at lines start j" if "start \<le> j \<and> j < r" for j
  proof -
    from that n(2) have "j - start < n" "j = start + (j - start)" by auto
    with n(4) show ?thesis by (metis balanced_at_offset)
  qed
  moreover from n have "balanced_at lines start r" by (simp add: balanced_at_offset)
  ultimately show ?thesis using r n(2)
    by (intro exI [of _ r]) (simp add: find_cfg_block_end_def)
qed

subsection \<open>Footers and spans\<close>

lemma first_footer_from_None:
  "first_footer_from ls j = None \<longleftrightarrow> (\<forall>n<length ls. \<not> spawn_footer (ls ! n))"
proof (induction ls arbitrary: j)
  case Nil
  show ?case by simp
next
  case (Cons ln rest)
  show ?case
    by (auto simp: Cons.IH nth_Cons less_Suc_eq_0_disj split: nat.splits)
qed

lemma first_footer_from_Some:
  "first_footer_from ls j = Some k \<Longrightarrow>
     \<exists>n<length ls. k = j + n \<and> spawn_footer (ls ! n) \<and> (\<forall>m<n. \<not> spawn_footer (ls ! m))"
proof (induction ls arbitrary: j)
  case Nil
  then show ?case by simp
next
  case (Cons ln rest)
  show ?case
  proof (cases "spawn_footer ln")
    case True
    with Cons.prems show ?thesis by (intro exI [of _ 0]) simp
  next
    case False
    with Cons.prems have "first_footer_from rest (Suc j) = Some k" by simp
    from Cons.IH [OF this] obtain n where n: "n < length rest" "k = Suc j + n"
      "spawn_footer (rest ! n)" "\<forall>m<n. \<not> spawn_footer (rest ! m)" by blast
    have "\<not> spawn_footer ((ln # rest) ! m)" if "m < Suc n" for m
      using that False n(4) by (cases m) auto
    with n show ?thesis by (intro exI [of _ "Suc n"]) simp
  qed
qed

lemma find_matching_footer_Some:
  assumes "find_matching_footer lines i = Some j"
  shows "first_footer_after lines i j"
proof -
  from assms have "first_footer_from (drop (i + 1) lines) (i + 1) = Some j"
    by (simp add: find_matching_footer_def)
  from first_footer_from_Some [OF this] obtain n where
    n: "n < length (drop (i + 1) lines)" "j = i + 1 + n"
    "spawn_footer (drop (i + 1) lines ! n)" "\<forall>m<n. \<not> spawn_footer (drop (i + 1) lines ! m)"
    by blast
  from n(1) have le: "i + 1 \<le> length lines" by simp
  have "\<not> spawn_footer (lines ! k)" if "i < k \<and> k < j" for k
  proof -
    from that n(2) have m: "k - (i + 1) < n" and k: "i + 1 + (k - (i + 1)) = k" by auto
    from n(4) m have "\<not> spawn_footer (drop (i + 1) lines ! (k - (i + 1)))" by blast
    with le k show ?thesis by (simp add: nth_drop del: drop_Suc)
  qed
  moreover from n(3) le have "spawn_footer (lines ! (i + 1 + n))" by (simp add: nth_drop)
  ultimately have "i < j \<and> j < length lines \<and> spawn_footer (lines ! j) \<and>
      (\<forall>k. i < k \<and> k < j \<longrightarrow> \<not> spawn_footer (lines ! k))"
    using n(1,2) by auto
  then show ?thesis by (simp add: first_footer_after_def)
qed

lemma find_matching_footer_None:
  assumes "find_matching_footer lines i = None" "i < k" "k < length lines"
  shows "\<not> spawn_footer (lines ! k)"
proof -
  from assms(1) have "\<forall>n<length (drop (i + 1) lines). \<not> spawn_footer (drop (i + 1) lines ! n)"
    by (simp add: find_matching_footer_def first_footer_from_None)
  moreover from assms have "k - (i + 1) < length (drop (i + 1) lines)" by simp
  ultimately have "\<not> spawn_footer (drop (i + 1) lines ! (k - (i + 1)))" by blast
  with assms show ?thesis by simp
qed

subsection \<open>The sub-block finder, step by step\<close>

lemma locate_loop_done:
  "\<not> int i \<le> block_end \<Longrightarrow> locate_loop lines block_end i urdf usd = Inr (urdf, usd)"
  by (subst locate_loop.simps) simp

lemma locate_loop_out_of_range:
  "int i \<le> block_end \<Longrightarrow> \<not> i < length lines \<Longrightarrow>
     locate_loop lines block_end i urdf usd = Inl IndexError"
  by (subst locate_loop.simps) simp

lemma locate_loop_no_header:
  "int i \<le> block_end \<Longrightarrow> i < length lines \<Longrightarrow> spawn_header (lines ! i) = None \<Longrightarrow>
     locate_loop lines block_end i urdf usd = locate_loop lines block_end (i + 1) urdf usd"
  by (subst locate_loop.simps) simp

lemma locate_loop_no_footer:
  "int i \<le> block_end \<Longrightarrow> i < length lines \<Longrightarrow> spawn_header (lines ! i) = Some h \<Longrightarrow>
   find_matching_footer lines i = None \<Longrightarrow>
     locate_loop lines block_end i urdf usd = locate_loop lines block_end (i + 1) urdf usd"
  by (subst locate_loop.simps) (simp split: prod.splits)

lemma locate_loop_footer_outside:
  "int i \<le> block_end \<Longrightarrow> i < length lines \<Longrightarrow> spawn_header (lines ! i) = Some h \<Longrightarrow>
   find_matching_footer lines i = Some j \<Longrightarrow> block_end < int j \<Longrightarrow>
     locate_loop lines block_end i urdf usd = locate_loop lines block_end (i + 1) urdf usd"
  by (subst locate_loop.simps) (simp split: prod.splits)

lemma locate_loop_record:
  "int i \<le> block_end \<Longrightarrow> i < length lines \<Longrightarrow>
   spawn_header (lines ! i) = Some (indent, prefix, kind) \<Longrightarrow>
   find_matching_footer lines i = Some j \<Longrightarrow> int j \<le> block_end \<Longrightarrow>
     locate_loop lines block_end i urdf usd =
       locate_loop lines block_end (j + 1)
         (if endswith kind (str ''UrdfFileCfg'') \<and> urdf = None then Some (i, j) else urdf)
         (if \<not> (endswith kind (str ''UrdfFileCfg'') \<and> urdf = None) \<and>
             endswith kind (str ''UsdFileCfg'') \<and> usd = None then Some (i, j) else usd)"
  by (subst locate_loop.simps) simp

lemma locate_loop_spec:
  assumes "block_end < int (length lines)"
    and "spans_ok lines bs block_end urdf usd"
    and "\<forall>sp. urdf = Some sp \<or> usd = Some sp \<longrightarrow> snd sp < i"
    and "bs \<le> i"
  shows "\<exists>u d. locate_loop lines block_end i urdf usd = Inr (u, d) \<and> spans_ok lines bs block_end u d"
  using assms
proof (induction "nat (block_end + 1 - int i)" arbitrary: i urdf usd rule: less_induct)
  case less
  show ?case
  proof (cases "int i \<le> block_end")
    case False
    with less.prems show ?thesis by (simp add: locate_loop_done)
  next
    case True
    with less.prems(1) have len: "i < length lines" by simp
    have next_ok: "\<exists>u d. locate_loop lines block_end (i + 1) urdf usd = Inr (u, d) \<and>
        spans_ok lines bs block_end u d"
    proof (rule less.hyps)
      show "nat (block_end + 1 - int (i + 1)) < nat (block_end + 1 - int i)" using True by simp
      show "block_end < int (length lines)" by (rule less.prems)
      show "spans_ok lines bs block_end urdf usd" by (rule less.prems)
      show "\<forall>sp. urdf = Some sp \<or> usd = Some sp \<longrightarrow> snd sp < i + 1"
        using less.prems(3) by (auto dest: less_SucI)
      show "bs \<le> i + 1" using less.prems(4) by simp
    qed
    show ?thesis
    proof (cases "spawn_header (lines ! i)")
      case None
      with True len next_ok show ?thesis by (simp add: locate_loop_no_header)
    next
      case (Some h)
      obtain indent prefix kind where h: "h = (indent, prefix, kind)" by (cases h)
      show ?thesis
      proof (cases "find_matching_footer lines i")
        case None
        with True len Some next_ok show ?thesis by (simp add: locate_loop_no_footer)
      next
        case (Some j)
        note fj = this
        show ?thesis
        proof (cases "block_end < int j")
          case True
          with \<open>int i \<le> block_end\<close> len \<open>spawn_header (lines ! i) = Some h\<close> fj next_ok
          show ?thesis by (simp add: locate_loop_footer_outside)
        next
          case False
          then have jle: "int j \<le> block_end" by simp
          from fj have ffa: "first_footer_after lines i j" by (rule find_matching_footer_Some)
          then have ij: "i < j" by (simp add: first_footer_after_def)
          let ?U = "endswith kind (str ''UrdfFileCfg'')"
          let ?D = "endswith kind (str ''UsdFileCfg'')"
          let ?urdf' = "if ?U \<and> urdf = None then Some (i, j) else urdf"
          let ?usd' = "if \<not> (?U \<and> urdf = None) \<and> ?D \<and> usd = None then Some (i, j) else usd"
          have hc: "hdr_class (lines ! i) = Some (?U, ?D)"
            using \<open>spawn_header (lines ! i) = Some h\<close> h by (simp add: hdr_class_def)
          have new_ok: "span_ok lines bs block_end True (i, j)" if "?U"
            using that hc jle ffa less.prems(4) by (auto simp: span_ok_def)
          have new_ok': "span_ok lines bs block_end False (i, j)" if "?D"
            using that hc jle ffa less.prems(4) by (auto simp: span_ok_def)
          have before: "snd sp < i" if "urdf = Some sp \<or> usd = Some sp" for sp
            using that less.prems(3) by blast
          have "\<exists>u d. locate_loop lines block_end (j + 1) ?urdf' ?usd' = Inr (u, d) \<and>
              spans_ok lines bs block_end u d"
          proof (rule less.hyps)
            show "nat (block_end + 1 - int (j + 1)) < nat (block_end + 1 - int i)"
              using ij jle by simp
            show "block_end < int (length lines)" by (rule less.prems)
            show "spans_ok lines bs block_end ?urdf' ?usd'"
              using less.prems(2) new_ok new_ok' before
              by (auto simp: spans_ok_def split: if_splits)
            show "\<forall>sp. ?urdf' = Some sp \<or> ?usd' = Some sp \<longrightarrow> snd sp < j + 1"
            proof (intro allI impI)
              fix sp assume "?urdf' = Some sp \<or> ?usd' = Some sp"
              then have "sp = (i, j) \<or> urdf = Some sp \<or> usd = Some sp"
                by (auto split: if_splits)
              then show "snd sp < j + 1" using before [of sp] ij by auto
            qed
            show "bs \<le> j + 1" using less.prems(4) ij by simp
          qed
          with \<open>int i \<le> block_end\<close> len \<open>spawn_header (lines ! i) = Some h\<close> h fj jle
          show ?thesis by (simp add: locate_loop_record)
        qed
      qed
    qed
  qed
qed

subsection \<open>The sub-block finder and the blocks of a region\<close>

lemma spawn_header_kind:
  assumes "spawn_header ln = Some (indent, prefix, k)"
  shows "k = str ''UnitreeUrdfFileCfg'' \<or> k = str ''UnitreeUsdFileCfg''"
proof -
  from assms obtain r where "((indent, prefix, k), r) \<in> set (SPAWN_HEADER_ANY_RE (rstrip_nl ln))"
    unfolding spawn_header_def by (blast dest: re_match_SomeD)
  then have "\<exists>a b c. k = a @ b @ c \<and> a = str ''Unitree'' \<and> (b = str ''Urdf'' \<or> b = str ''Usd'') \<and> c = str ''FileCfg''"
    unfolding SPAWN_HEADER_ANY_RE_def in_rx_bind in_rx_ret in_rx_cat in_rx_alt in_rx_lit
    by blast
  then show ?thesis by (auto simp: str_def)
qed

lemma header_kind_None: "header_kind ln = None \<longleftrightarrow> spawn_header ln = None"
  by (auto simp: header_kind_def split: option.splits dest: spawn_header_kind)

lemma header_kind_Urdf:
  "spawn_header ln = Some (indent, prefix, k) \<Longrightarrow>
     header_kind ln = Some Urdf \<longleftrightarrow> endswith k (str ''UrdfFileCfg'')"
  by (frule spawn_header_kind) (auto simp: header_kind_def endswith_def str_def)

lemma header_kind_Usd:
  "spawn_header ln = Some (indent, prefix, k) \<Longrightarrow>
     header_kind ln = Some Usd \<longleftrightarrow> endswith k (str ''UsdFileCfg'')"
  by (frule spawn_header_kind) (auto simp: header_kind_def endswith_def str_def)

lemma hdr_class_kind:
  "hdr_class ln = map_option (\<lambda>k. (k = Urdf, k = Usd)) (header_kind ln)"
proof (cases "spawn_header ln")
  case None
  then show ?thesis by (simp add: hdr_class_def header_kind_def)
next
  case (Some t)
  obtain indent prefix k where t: "t = (indent, prefix, k)" by (cases t)
  from Some t have h: "spawn_header ln = Some (indent, prefix, k)" by simp
  from header_kind_Urdf [OF h] header_kind_Usd [OF h] header_kind_None [of ln] h
  show ?thesis by (cases "header_kind ln") (auto simp: hdr_class_def)
qed

lemma find_upt_rec:
  "List.find P [a..<b] = (if a < b then if P a then Some a else List.find P [Suc a..<b] else None)"
  by (simp add: upt_conv_Cons)

lemma or_else_simps [simp]: "or_else None b = b" "or_else (Some x) b = Some x" "or_else a None = a"
  by (simp_all add: or_else_def split: option.splits)

lemma block_of_Nil: "block_of k [] = None"
  by (simp add: block_of_def)

lemma block_of_Cons:
  "block_of k ((k', sp) # bs) = (if k' = k then Some sp else block_of k bs)"
  by (simp add: block_of_def)

lemma region_blocks_empty: "\<not> int i \<le> be \<Longrightarrow> region_blocks lines i be = []"
proof -
  assume "\<not> int i \<le> be"
  then have "next_header lines i be = None"
    unfolding next_header_def find_upt_None_iff by auto
  then show ?thesis by (subst region_blocks.simps) simp
qed

lemma region_blocks_skip:
  assumes "int i \<le> be" "header_kind (lines ! i) = None"
  shows "region_blocks lines i be = region_blocks lines (i + 1) be"
proof -
  from assms(1) have "[i ..< nat (be + 1)] = i # [i + 1 ..< nat (be + 1)]"
    by (simp add: upt_conv_Cons)
  with assms(2) have "next_header lines i be = next_header lines (i + 1) be"
    by (simp add: next_header_def)
  then show ?thesis
    by (subst region_blocks.simps, subst (2) region_blocks.simps) simp
qed

lemma region_blocks_no_footer:
  assumes "\<forall>j. i < j \<and> int j \<le> be \<longrightarrow> \<not> spawn_footer (lines ! j)" "i \<le> i'"
  shows "region_blocks lines i' be = []"
proof (cases "next_header lines i' be")
  case None
  then show ?thesis by (subst region_blocks.simps) simp
next
  case (Some h)
  then have "i' \<le> h" by (simp add: next_header_def find_upt_Some_iff)
  with assms have "\<forall>y. h + 1 \<le> y \<and> y < nat (be + 1) \<longrightarrow> \<not> spawn_footer (lines ! y)" by auto
  then have "first_footer_idx lines h be = None"
    unfolding first_footer_idx_def find_upt_None_iff .
  with Some show ?thesis by (subst region_blocks.simps) (simp split: option.splits)
qed

lemma first_footer_idx_Some:
  "first_footer_after lines h j \<Longrightarrow> int j \<le> be \<Longrightarrow> first_footer_idx lines h be = Some j"
  unfolding first_footer_idx_def find_upt_Some_iff first_footer_after_def by auto

lemma region_blocks_block:
  assumes "header_kind (lines ! i) = Some k" "first_footer_after lines i j" "int j \<le> be"
  shows "region_blocks lines i be = (k, (i, j)) # region_blocks lines (j + 1) be"
proof -
  from assms(2) have "i < j" by (simp add: first_footer_after_def)
  with assms(1,3) have "next_header lines i be = Some i"
    unfolding next_header_def find_upt_Some_iff by auto
  moreover from assms(2,3) have "first_footer_idx lines i be = Some j"
    by (rule first_footer_idx_Some)
  ultimately show ?thesis using assms(1) by (subst region_blocks.simps) simp
qed

lemma region_blocks_first:
  assumes "first_block lines bs be k (h, j)"
  shows "region_blocks lines bs be = (k, (h, j)) # region_blocks lines (j + 1) be"
proof -
  from assms have a: "bs \<le> h" "header_kind (lines ! h) = Some k"
    "\<forall>h'. bs \<le> h' \<and> h' < h \<longrightarrow> header_kind (lines ! h') = None"
    "first_footer_after lines h j" "int j \<le> be"
    by (simp_all add: first_block_def)
  from a(4) have "h < j" by (simp add: first_footer_after_def)
  with a(1,2,3,5) have "next_header lines bs be = Some h"
    unfolding next_header_def find_upt_Some_iff by auto
  moreover from a(4,5) have "first_footer_idx lines h be = Some j"
    by (rule first_footer_idx_Some)
  ultimately show ?thesis using a(2) by (subst region_blocks.simps) simp
qed

lemma locate_loop_blocks:
  assumes "block_end < int (length lines)"
  shows "locate_loop lines block_end i urdf usd =
           Inr (or_else urdf (block_of Urdf (region_blocks lines i block_end)),
                or_else usd (block_of Usd (region_blocks lines i block_end)))"
proof (induction "nat (block_end + 1 - int i)" arbitrary: i urdf usd rule: less_induct)
  case less
  show ?case
  proof (cases "int i \<le> block_end")
    case False
    then show ?thesis by (simp add: locate_loop_done region_blocks_empty block_of_Nil)
  next
    case True
    with assms have len: "i < length lines" by simp
    have nxt: "locate_loop lines block_end (i + 1) urdf usd =
        Inr (or_else urdf (block_of Urdf (region_blocks lines (i + 1) block_end)),
             or_else usd (block_of Usd (region_blocks lines (i + 1) block_end)))"
      using True by (intro less.hyps) simp
    show ?thesis
    proof (cases "spawn_header (lines ! i)")
      case None
      then have "header_kind (lines ! i) = None" by (simp add: header_kind_None)
      with True have "region_blocks lines i block_end = region_blocks lines (i + 1) block_end"
        by (rule region_blocks_skip)
      with True len None nxt show ?thesis by (simp add: locate_loop_no_header)
    next
      case (Some t)
      obtain indent prefix kind where t: "t = (indent, prefix, kind)" by (cases t)
      with Some have hd: "spawn_header (lines ! i) = Some (indent, prefix, kind)" by simp
      show ?thesis
      proof (cases "find_matching_footer lines i")
        case None
        then have "\<forall>j. i < j \<and> int j \<le> block_end \<longrightarrow> \<not> spawn_footer (lines ! j)"
          using assms by (auto dest: find_matching_footer_None)
        then have "region_blocks lines i block_end = []"
          "region_blocks lines (i + 1) block_end = []"
          by (auto intro: region_blocks_no_footer)
        with True len Some None nxt show ?thesis by (simp add: locate_loop_no_footer)
      next
        case (Some j)
        note fj = this
        then have ffa: "first_footer_after lines i j" by (rule find_matching_footer_Some)
        show ?thesis
        proof (cases "block_end < int j")
          case True
          from ffa True have "\<forall>j'. i < j' \<and> int j' \<le> block_end \<longrightarrow> \<not> spawn_footer (lines ! j')"
            by (auto simp: first_footer_after_def)
          then have "region_blocks lines i block_end = []"
            "region_blocks lines (i + 1) block_end = []"
            by (auto intro: region_blocks_no_footer)
          with \<open>int i \<le> block_end\<close> len hd fj True nxt show ?thesis
            by (simp add: locate_loop_footer_outside)
        next
          case False
          then have jle: "int j \<le> block_end" by simp
          from ffa have ij: "i < j" by (simp add: first_footer_after_def)
          from hd header_kind_None [of "lines ! i"] obtain k where
            k: "header_kind (lines ! i) = Some k" by (cases "header_kind (lines ! i)") auto
          from k header_kind_Urdf [OF hd] have U: "endswith kind (str ''UrdfFileCfg'') \<longleftrightarrow> k = Urdf"
            by simp
          from k header_kind_Usd [OF hd] have D: "endswith kind (str ''UsdFileCfg'') \<longleftrightarrow> k = Usd"
            by simp
          have rb: "region_blocks lines i block_end =
              (k, (i, j)) # region_blocks lines (j + 1) block_end"
            using k ffa jle by (rule region_blocks_block)
          have IH: "locate_loop lines block_end (j + 1) u d =
              Inr (or_else u (block_of Urdf (region_blocks lines (j + 1) block_end)),
                   or_else d (block_of Usd (region_blocks lines (j + 1) block_end)))" for u d
            using ij jle by (intro less.hyps) simp
          show ?thesis
            unfolding locate_loop_record [OF \<open>int i \<le> block_end\<close> len hd fj jle] IH rb U D
            by (cases k; cases urdf; cases usd) (simp_all add: block_of_Cons)
        qed
      qed
    qed
  qed
qed

lemma locate_spawn_blocks_within_blocks:
  assumes "block_end < int (length lines)"
  shows "locate_spawn_blocks_within lines block_start block_end =
           Inr (block_of Urdf (region_blocks lines block_start block_end),
                block_of Usd (region_blocks lines block_start block_end))"
  by (simp add: locate_spawn_blocks_within_def locate_loop_blocks [OF assms])

subsection \<open>The switch\<close>

lemma fold_update_nth:
  assumes "distinct ks" "\<forall>x\<in>set ks. x < length lines" "k < length lines"
  shows "fold (\<lambda>k ls. ls[k := g (ls ! k)]) ks lines ! k =
           (if k \<in> set ks then g (lines ! k) else lines ! k)"
  using assms
proof (induction ks arbitrary: lines)
  case Nil
  show ?case by simp
next
  case (Cons a ks)
  let ?l = "lines[a := g (lines ! a)]"
  have "fold (\<lambda>k ls. ls[k := g (ls ! k)]) ks ?l ! k = (if k \<in> set ks then g (?l ! k) else ?l ! k)"
    by (rule Cons.IH) (use Cons.prems in auto)
  moreover have "?l ! k = (if k = a then g (lines ! a) else lines ! k)"
    using Cons.prems by (simp add: nth_list_update)
  ultimately show ?case using Cons.prems(1) by auto
qed

lemma switch_spawn_block_spec:
  assumes "e < length lines"
  shows "\<exists>lines'. switch_spawn_block lines (s, e) enable = Inr lines' \<and>
           length lines' = length lines \<and>
           (\<forall>k<length lines. lines' ! k =
              (if s \<le> k \<and> k \<le> e
               then (if enable then uncomment_line (lines ! k) else comment_line (lines ! k))
               else lines ! k))"
proof -
  let ?g = "\<lambda>l. if enable then uncomment_line l else comment_line l"
  let ?r = "fold (\<lambda>k ls. ls[k := ?g (ls ! k)]) [s ..< e + 1] lines"
  have eq: "switch_spawn_block lines (s, e) enable = Inr ?r"
    using assms by (cases enable) (simp_all add: switch_spawn_block_def)
  have nth: "?r ! k = (if s \<le> k \<and> k \<le> e then ?g (lines ! k) else lines ! k)"
    if "k < length lines" for k
  proof -
    have "?r ! k = (if k \<in> set [s ..< e + 1] then ?g (lines ! k) else lines ! k)"
      by (rule fold_update_nth) (use assms that in auto)
    also have "k \<in> set [s ..< e + 1] \<longleftrightarrow> s \<le> k \<and> k \<le> e" by auto
    finally show ?thesis .
  qed
  show ?thesis
  proof (intro exI [of _ ?r] conjI allI impI)
    show "switch_spawn_block lines (s, e) enable = Inr ?r" by (rule eq)
    show "length ?r = length lines" by (rule length_fold_update)
    fix k assume "k < length lines"
    then show "?r ! k = (if s \<le> k \<and> k \<le> e
               then (if enable then uncomment_line (lines ! k) else comment_line (lines ! k))
               else lines ! k)"
      by (simp only: nth)
  qed
qed

lemma switch_opt_spec:
  assumes "\<forall>s e. sp = Some (s, e) \<longrightarrow> e < length lines"
  shows "\<exists>lines'. switch_opt lines sp enable = Inr lines' \<and>
           length lines' = length lines \<and>
           (\<forall>k<length lines. lines' ! k =
              (if in_span k sp
               then (if enable then uncomment_line (lines ! k) else comment_line (lines ! k))
               else lines ! k))"
proof (cases sp)
  case None
  then show ?thesis by (simp add: switch_opt_def in_span_def)
next
  case (Some a)
  obtain s e where a: "a = (s, e)" by (cases a)
  with Some assms have "e < length lines" by simp
  from switch_spawn_block_spec [OF this, of s enable] Some a show ?thesis
    by (simp add: switch_opt_def in_span_def)
qed

lemma spans_ok_bounds:
  assumes "spans_ok lines bs be u d" "u = Some (s, e) \<or> d = Some (s, e)"
  shows "bs \<le> s" "s < e" "int e \<le> be" "e < length lines"
  using assms by (auto simp: spans_ok_def span_ok_def first_footer_after_def)

lemma spans_ok_disjoint:
  assumes "spans_ok lines bs be u d"
  shows "\<not> (in_span k u \<and> in_span k d)"
proof
  assume both: "in_span k u \<and> in_span k d"
  then obtain a b where ab: "u = Some a" "d = Some b"
    by (auto simp: in_span_def split: option.splits)
  with assms have "snd a < fst b \<or> snd b < fst a" by (simp add: spans_ok_def)
  with both ab show False by (auto simp: in_span_def split: prod.splits)
qed

lemma switch_mode_spec:
  assumes ok: "spans_ok lines bs be u d"
  shows "\<exists>lines'. switch_mode lines mode u d = Inr lines' \<and>
           length lines' = length lines \<and>
           (\<forall>k<length lines. lines' ! k = toggle_line mode u d lines k)"
proof -
  let ?en = "enabled_span mode u d" and ?dis = "disabled_span mode u d"
  have en: "\<forall>s e. ?en = Some (s, e) \<longrightarrow> e < length lines"
    and dis: "\<forall>s e. ?dis = Some (s, e) \<longrightarrow> e < length lines"
    using spans_ok_bounds(4) [OF ok] by (auto simp: enabled_span_def disabled_span_def)
  have disj: "\<not> (in_span k ?en \<and> in_span k ?dis)" for k
    using spans_ok_disjoint [OF ok, of k] by (auto simp: enabled_span_def disabled_span_def)
  from switch_opt_spec [OF en, of True] obtain l1 where
    l1: "switch_opt lines ?en True = Inr l1" "length l1 = length lines"
    "\<forall>k<length lines. l1 ! k = (if in_span k ?en then uncomment_line (lines ! k) else lines ! k)"
    by auto
  from dis l1(2) have "\<forall>s e. ?dis = Some (s, e) \<longrightarrow> e < length l1" by simp
  from switch_opt_spec [OF this, of False] obtain l2 where
    l2: "switch_opt l1 ?dis False = Inr l2" "length l2 = length l1"
    "\<forall>k<length l1. l2 ! k = (if in_span k ?dis then comment_line (l1 ! k) else l1 ! k)"
    by auto
  have sm: "switch_mode lines mode u d = Inr l2"
    using l1(1) l2(1)
    by (cases "mode = str ''urdf''") (simp_all add: switch_mode_def enabled_span_def disabled_span_def)
  have "l2 ! k = toggle_line mode u d lines k" if "k < length lines" for k
    using that l1(2,3) l2(3) disj [of k] by (auto simp: toggle_line_def)
  with sm l1(2) l2(2) show ?thesis by simp
qed

subsection \<open>The patch never raises\<close>

lemma scan_lines_lt: "scan_lines ls i st = Some k \<Longrightarrow> k < i + length ls"
  by (induction ls arbitrary: i st) (fastforce split: if_splits prod.splits)+

lemma find_cfg_block_end_lt:
  "i < length lines \<Longrightarrow> find_cfg_block_end lines i < int (length lines)"
  by (auto simp: find_cfg_block_end_def split: option.splits dest: scan_lines_lt)

lemma locate_spawn_blocks_within_ok:
  assumes "block_end < int (length lines)"
  shows "\<exists>u d. locate_spawn_blocks_within lines bs block_end = Inr (u, d) \<and>
           spans_ok lines bs block_end u d"
proof -
  have "spans_ok lines bs block_end None None" by (simp add: spans_ok_def)
  from locate_loop_spec [OF assms this, of bs] show ?thesis
    by (simp add: locate_spawn_blocks_within_def)
qed

lemma patch_loop_total:
  "\<exists>r. patch_loop lines mode i c u d = Inr r"
proof (induction "length lines - i" arbitrary: lines i c u d rule: less_induct)
  case less
  show ?case
  proof (cases "i < length lines")
    case False
    then show ?thesis by (subst patch_loop.simps) simp
  next
    case True
    note len = this
    show ?thesis
    proof (cases "cfg_start (lines ! i)")
      case False
      have "\<exists>r. patch_loop lines mode (i + 1) c u d = Inr r"
        using len by (intro less.hyps) simp
      with len False show ?thesis by (subst patch_loop.simps) simp
    next
      case True
      let ?be = "find_cfg_block_end lines i"
      from len have lt: "?be < int (length lines)" by (rule find_cfg_block_end_lt)
      from len have ge: "int i \<le> ?be" by (rule find_cfg_block_end_ge)
      from locate_spawn_blocks_within_ok [OF lt, of i] obtain us ds where
        loc: "locate_spawn_blocks_within lines i ?be = Inr (us, ds)"
        and ok: "spans_ok lines i ?be us ds" by blast
      from switch_mode_spec [OF ok, of mode] obtain lines' where
        sw: "switch_mode lines mode us ds = Inr lines'" and l': "length lines' = length lines"
        by blast
      have "\<exists>r. patch_loop lines' mode (nat (?be + 1)) c' u' d' = Inr r" for c' u' d'
        using len ge l' by (intro less.hyps) auto
      with len True loc sw show ?thesis by (subst patch_loop.simps) simp
    qed
  qed
qed

lemma patch_spawn_modes_total:
  "\<exists>patched c u d. patch_spawn_modes original mode = Inr (patched, c, u, d)"
proof -
  from patch_loop_total [of "splitlines_keep original" mode 0 0 0 0]
  obtain r where "patch_loop (splitlines_keep original) mode 0 0 0 0 = Inr r" by blast
  then show ?thesis by (cases r) (auto simp: patch_spawn_modes_def)
qed

section \<open>Claims on the comment toggle\<close>

text \<open>
  C4. Round trip: \<open>uncomment_line (comment_line L) = L\<close> for every line \<open>L\<close> whose
  content after its leading spaces and tabs does not begin with the marker \<^verbatim>\<open>#\<close>. A line
  is an element of \<^verbatim>\<open>splitlines(True)\<close>: it has no newline but, possibly, its last
  character. The theorem needs no more than that; in particular it also holds for blank
  lines and for lines whose first character is another whitespace character.
\<close>

theorem uncomment_comment_roundtrip:
  assumes "LF \<notin> set (butlast L)"
    and "\<not> startswith (dropWhile is_blank L) [HASH]"
  shows "uncomment_line (comment_line L) = L"
  using assms by (rule uncomment_comment)

theorem uncomment_comment_roundtrip_witness:
  "LF \<notin> set (butlast (str ''  x = 1\<newline>'')) \<and>
   \<not> startswith (dropWhile is_blank (str ''  x = 1\<newline>'')) [HASH] \<and>
   strip (str ''  x = 1\<newline>'') \<noteq> [] \<and>
   comment_line (str ''  x = 1\<newline>'') = str ''  # x = 1\<newline>'' \<and>
   uncomment_line (comment_line (str ''  x = 1\<newline>'')) = str ''  x = 1\<newline>''"
proof -
  have h1: "LF \<notin> set (butlast (str ''  x = 1\<newline>''))"
    by (simp add: str_def)
  have h2: "\<not> startswith (dropWhile is_blank (str ''  x = 1\<newline>'')) [HASH]"
    by (simp add: py_eval)
  have h3: "strip (str ''  x = 1\<newline>'') \<noteq> []"
    by (simp add: py_eval)
  have h4: "comment_line (str ''  x = 1\<newline>'') = str ''  # x = 1\<newline>''"
    by (simp add: comment_line_def line_re_eval rx_eval py_eval)
  from h1 h2 h3 h4 uncomment_comment_roundtrip [OF h1 h2] show ?thesis
    by (simp only: simp_thms)
qed

text \<open>
  C5. \<open>comment_line\<close> is idempotent on every line. \<open>uncomment_line\<close> is not: it strips
  one marker at a time. On a line whose content begins with the marker, it returns the
  indentation followed by what is left when that one marker, and at most one whitespace
  character after it, are stripped; any other line it returns unchanged. So it is
  idempotent on a line exactly when the line does not carry two markers.
\<close>

theorem comment_idempotent_uncomment_one_marker:
  assumes "LF \<notin> set (butlast L)"
  shows "comment_line (comment_line L) = comment_line L \<and>
         (\<forall>u. dropWhile is_blank L = HASH # u \<longrightarrow>
            uncomment_line L = takeWhile is_blank L @ after_marker u) \<and>
         (\<not> startswith (dropWhile is_blank L) [HASH] \<longrightarrow> uncomment_line L = L) \<and>
         (uncomment_line (uncomment_line L) = uncomment_line L \<longleftrightarrow> \<not> two_markers L)"
  using assms
  by (simp add: comment_line_idem uncomment_line_nohash uncomment_line_marked
      uncomment_line_idem_iff)

theorem comment_idempotent_uncomment_one_marker_witness:
  "LF \<notin> set (butlast (str ''  # x\<newline>'')) \<and>
   dropWhile is_blank (str ''  # x\<newline>'') = HASH # str '' x\<newline>'' \<and>
   takeWhile is_blank (str ''  # x\<newline>'') @ after_marker (str '' x\<newline>'') = str ''  x\<newline>'' \<and>
   \<not> two_markers (str ''  # x\<newline>'') \<and>
   uncomment_line (str ''  # x\<newline>'') = str ''  x\<newline>'' \<and>
   uncomment_line (uncomment_line (str ''  # x\<newline>'')) = uncomment_line (str ''  # x\<newline>'') \<and>
   comment_line (comment_line (str ''  # x\<newline>'')) = comment_line (str ''  # x\<newline>'')"
proof -
  have h1: "LF \<notin> set (butlast (str ''  # x\<newline>''))"
    by (simp add: str_def)
  have h2: "dropWhile is_blank (str ''  # x\<newline>'') = HASH # str '' x\<newline>''"
    by (simp add: py_eval)
  have h3: "takeWhile is_blank (str ''  # x\<newline>'') @ after_marker (str '' x\<newline>'') = str ''  x\<newline>''"
    by (simp add: after_marker_def py_eval)
  have h4: "\<not> two_markers (str ''  # x\<newline>'')"
    by (simp add: two_markers_def after_marker_def py_eval)
  from comment_idempotent_uncomment_one_marker [OF h1]
  have a: "comment_line (comment_line (str ''  # x\<newline>'')) = comment_line (str ''  # x\<newline>'')"
    and b: "\<forall>u. dropWhile is_blank (str ''  # x\<newline>'') = HASH # u \<longrightarrow>
      uncomment_line (str ''  # x\<newline>'') = takeWhile is_blank (str ''  # x\<newline>'') @ after_marker u"
    and c: "uncomment_line (uncomment_line (str ''  # x\<newline>'')) = uncomment_line (str ''  # x\<newline>'')
      \<longleftrightarrow> \<not> two_markers (str ''  # x\<newline>'')"
    by blast+
  from b h2 have "uncomment_line (str ''  # x\<newline>'') =
      takeWhile is_blank (str ''  # x\<newline>'') @ after_marker (str '' x\<newline>'')" by blast
  from this h3 have d: "uncomment_line (str ''  # x\<newline>'') = str ''  x\<newline>''" by (rule trans)
  from c h4 have e: "uncomment_line (uncomment_line (str ''  # x\<newline>'')) = uncomment_line (str ''  # x\<newline>'')"
    by blast
  from h1 h2 h3 h4 a d e show ?thesis by blast
qed

theorem uncomment_not_idempotent:
  "uncomment_line (uncomment_line (str ''## x\<newline>'')) \<noteq> uncomment_line (str ''## x\<newline>'')"
proof -
  have h1: "uncomment_line (str ''## x\<newline>'') = str ''# x\<newline>''"
    by (simp add: uncomment_line_def line_re_eval rx_eval py_eval)
  have h2: "uncomment_line (str ''# x\<newline>'') = str ''x\<newline>''"
    by (simp add: uncomment_line_def line_re_eval rx_eval py_eval)
  show ?thesis unfolding h1 h2 by (simp add: str_def)
qed

text \<open>
  C6. The terminator of a line is kept by \<open>comment_line\<close>, and is meant to be kept by
  \<open>uncomment_line\<close>, whose pattern captures it in a group of its own. But the optional
  \<^verbatim>\<open>\s\<close> after the marker also matches a newline: on a line that holds the marker
  alone, it takes the newline, and the line comes back without its terminator (with
  CR LF, it takes the CR and LF alone is left).
\<close>

theorem uncomment_line_loses_terminator:
  "uncomment_line (str ''    #\<newline>'') = str ''    '' \<and>
   terminator (str ''    #\<newline>'') = [LF] \<and>
   terminator (uncomment_line (str ''    #\<newline>'')) = [] \<and>
   uncomment_line (str ''#'' @ [CR, LF]) = [LF]"
proof -
  have h1: "uncomment_line (str ''    #\<newline>'') = str ''    ''"
    by (simp add: uncomment_line_def line_re_eval rx_eval py_eval)
  have h2: "terminator (str ''    #\<newline>'') = [LF]"
    by (simp add: terminator_def str_def is_linebreak_def)
  have h3: "terminator (str ''    '') = []"
    by (simp add: terminator_def str_def is_linebreak_def)
  have h4: "uncomment_line (str ''#'' @ [CR, LF]) = [LF]"
    by (simp add: uncomment_line_def line_re_eval rx_eval py_eval)
  from h1 h2 h3 h4 show ?thesis by simp
qed

section \<open>Claims on the region locator and the sub-block finder\<close>

lemmas block_re_eval = SPAWN_HEADER_ANY_RE_def SPAWN_FOOTER_ANY_RE_def CFG_START_RE_def
  spawn_header_def spawn_footer_def cfg_start_def rx_plus_def is_var_char_def endswith_def

lemmas balance_eval = balanced_at_def started_after_def depth_after_def region_text_def

text \<open>
  C7. The depth counter is the one the specification describes: over all the characters
  of the lines \<open>start\<close> to \<open>i\<close>, each opening delimiter adds 1 and sets started, each
  closing delimiter subtracts 1, so the depth after line \<open>i\<close> is the number of opening
  delimiters minus the number of closing ones in these lines, and the region is balanced
  at \<open>i\<close> when an opening delimiter occurs in them and the depth is at most 0. When the
  region is balanced at some line \<open>k\<close> from \<open>start\<close> on, the region locator returns the
  first such line: the region is balanced at the line it returns, and at no line from
  \<open>start\<close> before it.
\<close>

theorem find_cfg_block_end_first_balanced:
  assumes "start \<le> k" and "k < length lines" and "balanced_at lines start k"
  shows "\<exists>r. find_cfg_block_end lines start = int r \<and> start \<le> r \<and> r \<le> k \<and>
           balanced_at lines start r \<and>
           (\<forall>j. start \<le> j \<and> j < r \<longrightarrow> \<not> balanced_at lines start j)"
  using assms by (rule find_cfg_block_end_balanced)

theorem find_cfg_block_end_first_balanced_witness:
  "(0::nat) \<le> 7 \<and> 7 < length example_region \<and> balanced_at example_region 0 7 \<and>
   depth_after example_region 0 6 = 1 \<and> depth_after example_region 0 7 = 0 \<and>
   \<not> balanced_at example_region 0 6 \<and> find_cfg_block_end example_region 0 = 7"
proof -
  have b7: "balanced_at example_region 0 7"
    by (simp add: balance_eval example_region_def str_def)
  have d6: "depth_after example_region 0 6 = 1"
    by (simp add: balance_eval example_region_def str_def)
  have d7: "depth_after example_region 0 7 = 0"
    by (simp add: balance_eval example_region_def str_def)
  have nb: "\<not> balanced_at example_region 0 j" if "j < 7" for j
  proof -
    from that consider "j = 0" | "j = 1" | "j = 2" | "j = 3" | "j = 4" | "j = 5" | "j = 6"
      by linarith
    then show ?thesis
      by cases (simp_all add: balance_eval example_region_def str_def)
  qed
  have len: "7 < length example_region" by (simp add: example_region_def)
  from find_cfg_block_end_first_balanced [of 0 7 example_region, OF _ len b7]
  obtain r where r: "find_cfg_block_end example_region 0 = int r" "r \<le> 7"
    "balanced_at example_region 0 r" by auto
  from r(3) nb have "\<not> r < 7" by blast
  with r(2) have "r = 7" by simp
  with r(1) b7 d6 d7 nb [of 6] len show ?thesis by simp
qed

text \<open>
  C8. Within a region that ends inside the document, the sub-block finder returns without
  error a pair of optional spans, so at most one span per kind, and these are the spans
  of the first block of each kind among the blocks of the region: the finder records a
  header with the first footer after it when that footer is in the region, resumes at
  the line after the footer, and skips a header that has no footer in the region. Said
  without the walk: a span it returns starts at a header of its kind in the region and
  ends at the first footer after that header, not after the region's end, and the two
  spans do not overlap; the first block of the region is returned as the span of its
  kind; when the first block after its footer is of the other kind, it is returned as the
  span of that kind; and when no header of the region has its first footer in the region,
  no span is returned.
\<close>

theorem locate_spawn_blocks_within_spec:
  assumes "block_end < int (length lines)"
  shows
    "\<exists>urdf usd. locate_spawn_blocks_within lines block_start block_end = Inr (urdf, usd) \<and>
        urdf = block_of Urdf (region_blocks lines block_start block_end) \<and>
        usd = block_of Usd (region_blocks lines block_start block_end) \<and>
        (\<forall>s e. urdf = Some (s, e) \<longrightarrow>
           block_start \<le> s \<and> int e \<le> block_end \<and>
           header_kind (lines ! s) = Some Urdf \<and> first_footer_after lines s e) \<and>
        (\<forall>s e. usd = Some (s, e) \<longrightarrow>
           block_start \<le> s \<and> int e \<le> block_end \<and>
           header_kind (lines ! s) = Some Usd \<and> first_footer_after lines s e) \<and>
        (\<forall>a b. urdf = Some a \<and> usd = Some b \<longrightarrow> snd a < fst b \<or> snd b < fst a) \<and>
        (\<forall>k h j. first_block lines block_start block_end k (h, j) \<longrightarrow>
           (if k = Urdf then urdf else usd) = Some (h, j)) \<and>
        (\<forall>k h j k' h' j'.
           first_block lines block_start block_end k (h, j) \<and>
           first_block lines (j + 1) block_end k' (h', j') \<and> k' \<noteq> k \<longrightarrow>
           (if k' = Urdf then urdf else usd) = Some (h', j')) \<and>
        ((\<forall>h j. block_start \<le> h \<and> first_footer_after lines h j \<and> int j \<le> block_end \<longrightarrow>
             header_kind (lines ! h) = None) \<longrightarrow>
           urdf = None \<and> usd = None)"
proof -
  let ?bl = "region_blocks lines block_start block_end"
  let ?urdf = "block_of Urdf ?bl" and ?usd = "block_of Usd ?bl"
  have loc: "locate_spawn_blocks_within lines block_start block_end = Inr (?urdf, ?usd)"
    using assms by (rule locate_spawn_blocks_within_blocks)
  have "spans_ok lines block_start block_end None None" by (simp add: spans_ok_def)
  from locate_loop_spec [OF assms this, of block_start] loc
  have ok: "spans_ok lines block_start block_end ?urdf ?usd"
    by (auto simp: locate_spawn_blocks_within_def)
  have s1: "block_start \<le> s \<and> int e \<le> block_end \<and>
      header_kind (lines ! s) = Some Urdf \<and> first_footer_after lines s e"
    if "?urdf = Some (s, e)" for s e
    using ok that by (auto simp: spans_ok_def span_ok_def hdr_class_kind)
  have s2: "block_start \<le> s \<and> int e \<le> block_end \<and>
      header_kind (lines ! s) = Some Usd \<and> first_footer_after lines s e"
    if "?usd = Some (s, e)" for s e
    using ok that by (auto simp: spans_ok_def span_ok_def hdr_class_kind)
  have s3: "snd a < fst b \<or> snd b < fst a" if "?urdf = Some a \<and> ?usd = Some b" for a b
    using ok that by (auto simp: spans_ok_def)
  have c1: "(if k = Urdf then ?urdf else ?usd) = Some (h, j)"
    if "first_block lines block_start block_end k (h, j)" for k h j
    using region_blocks_first [OF that] by (cases k) (simp_all add: block_of_Cons)
  have c2: "(if k' = Urdf then ?urdf else ?usd) = Some (h', j')"
    if "first_block lines block_start block_end k (h, j) \<and>
        first_block lines (j + 1) block_end k' (h', j') \<and> k' \<noteq> k" for k h j k' h' j'
  proof -
    from that have a: "first_block lines block_start block_end k (h, j)"
      and b: "first_block lines (j + 1) block_end k' (h', j')" and ne: "k' \<noteq> k" by auto
    from region_blocks_first [OF a] region_blocks_first [OF b] ne show ?thesis
      by (cases k') (simp_all add: block_of_Cons)
  qed
  have c3: "?urdf = None \<and> ?usd = None"
    if "\<forall>h j. block_start \<le> h \<and> first_footer_after lines h j \<and> int j \<le> block_end \<longrightarrow>
          header_kind (lines ! h) = None"
  proof -
    have "?urdf = None"
    proof (cases ?urdf)
      case (Some sp)
      obtain s e where "sp = (s, e)" by (cases sp)
      with Some s1 [of s e] that show ?thesis by auto
    qed simp
    moreover have "?usd = None"
    proof (cases ?usd)
      case (Some sp)
      obtain s e where "sp = (s, e)" by (cases sp)
      with Some s2 [of s e] that show ?thesis by auto
    qed simp
    ultimately show ?thesis by simp
  qed
  from loc s1 s2 s3 c1 c2 c3 show ?thesis
    by (intro exI [of _ ?urdf] exI [of _ ?usd] conjI allI impI) blast+
qed

theorem locate_spawn_blocks_within_spec_witness:
  "(7::int) < int (length example_region) \<and>
   \<not> spawn_footer (example_region ! 2) \<and> spawn_footer (example_region ! 3) \<and>
   \<not> spawn_footer (example_region ! 5) \<and> spawn_footer (example_region ! 6) \<and>
   first_block example_region 0 7 Urdf (1, 3) \<and>
   first_block example_region (3 + 1) 7 Usd (4, 6) \<and>
   region_blocks example_region 0 7 = [(Urdf, (1, 3)), (Usd, (4, 6))] \<and>
   locate_spawn_blocks_within example_region 0 7 = Inr (Some (1, 3), Some (4, 6))"
proof -
  have len: "(7::int) < int (length example_region)" by (simp add: example_region_def)
  have f: "\<not> spawn_footer (example_region ! 1)" "\<not> spawn_footer (example_region ! 2)"
    "spawn_footer (example_region ! 3)" "\<not> spawn_footer (example_region ! 4)"
    "\<not> spawn_footer (example_region ! 5)" "spawn_footer (example_region ! 6)"
    by (simp_all add: example_region_def block_re_eval rx_eval py_eval)
  have h: "header_kind (example_region ! 0) = None" "header_kind (example_region ! 1) = Some Urdf"
    "header_kind (example_region ! 4) = Some Usd"
    by (simp_all add: header_kind_def example_region_def block_re_eval rx_eval py_eval)
  have ff1: "first_footer_after example_region 1 3"
  proof -
    have "\<not> spawn_footer (example_region ! k)" if "1 < k \<and> k < 3" for k
    proof -
      from that have "k = 2" by simp
      with f show ?thesis by simp
    qed
    with f show ?thesis by (simp add: first_footer_after_def example_region_def)
  qed
  have ff2: "first_footer_after example_region 4 6"
  proof -
    have "\<not> spawn_footer (example_region ! k)" if "4 < k \<and> k < 6" for k
    proof -
      from that have "k = 5" by simp
      with f show ?thesis by simp
    qed
    with f show ?thesis by (simp add: first_footer_after_def example_region_def)
  qed
  have fb1: "first_block example_region 0 7 Urdf (1, 3)"
  proof -
    have "header_kind (example_region ! h') = None" if "0 \<le> h' \<and> h' < 1" for h'
    proof -
      from that have "h' = 0" by simp
      with h show ?thesis by simp
    qed
    with h ff1 show ?thesis by (simp add: first_block_def)
  qed
  have fb2: "first_block example_region (3 + 1) 7 Usd (4, 6)"
    using h ff2 by (auto simp add: first_block_def)
  have rb: "region_blocks example_region 0 7 = [(Urdf, (1, 3)), (Usd, (4, 6))]"
    by (simp add: region_blocks.simps next_header_def first_footer_idx_def header_kind_def
        find_upt_rec example_region_def block_re_eval rx_eval py_eval)
  from locate_spawn_blocks_within_spec [OF len, of 0]
  obtain urdf usd where r: "locate_spawn_blocks_within example_region 0 7 = Inr (urdf, usd)"
    "\<forall>k h j. first_block example_region 0 7 k (h, j) \<longrightarrow>
       (if k = Urdf then urdf else usd) = Some (h, j)"
    "\<forall>k h j k' h' j'. first_block example_region 0 7 k (h, j) \<and>
       first_block example_region (j + 1) 7 k' (h', j') \<and> k' \<noteq> k \<longrightarrow>
       (if k' = Urdf then urdf else usd) = Some (h', j')"
    by blast
  from r(2) fb1 have "urdf = Some (1, 3)" by fastforce
  moreover from r(3) fb1 fb2 have "usd = Some (4, 6)" by fastforce
  ultimately have "locate_spawn_blocks_within example_region 0 7 = Inr (Some (1, 3), Some (4, 6))"
    using r(1) by simp
  with len f fb1 fb2 rb show ?thesis by simp
qed
section \<open>Claims on the run\<close>

subsection \<open>The document with a region that is never closed\<close>

lemma unbalanced_doc_lines: "splitlines_keep unbalanced_doc = unbalanced_lines"
  by (simp add: splitlines_keep_def unbalanced_doc_def unbalanced_lines_def str_def is_linebreak_def)

lemma unbalanced_lines_length: "length unbalanced_lines = 3" "unbalanced_lines \<noteq> []"
  by (simp_all add: unbalanced_lines_def)

lemma unbalanced_lines_start: "cfg_start (unbalanced_lines ! 0)"
  by (simp add: unbalanced_lines_def block_re_eval rx_eval py_eval)

lemma unbalanced_lines_never_balanced:
  "\<not> balanced_at unbalanced_lines 0 0" "\<not> balanced_at unbalanced_lines 0 (Suc 0)"
  "\<not> balanced_at unbalanced_lines 0 2"
  by (simp_all add: balance_eval unbalanced_lines_def str_def)

lemma unbalanced_lines_end: "find_cfg_block_end unbalanced_lines 0 = 2"
  by (simp add: find_cfg_block_end_def unbalanced_lines_def str_def)

lemma unbalanced_lines_blocks:
  "locate_spawn_blocks_within unbalanced_lines 0 2 = Inr (None, Some (1, 2))"
  by (simp add: locate_spawn_blocks_within_def locate_loop.simps find_matching_footer_def
        unbalanced_lines_def block_re_eval rx_eval py_eval)

lemma unbalanced_lines_switch:
  "switch_mode unbalanced_lines (str ''urdf'') None (Some (Suc 0, 2)) =
     Inr [str ''G1_CFG = UnitreeArticulationCfg(\<newline>'',
          str ''    # spawn=UnitreeUsdFileCfg(\<newline>'',
          str ''    # ),\<newline>'']"
  by (simp add: switch_mode_def switch_opt_def switch_spawn_block_def upt_rec
      unbalanced_lines_def comment_line_def line_re_eval rx_eval py_eval)

lemma unbalanced_doc_patched:
  "patch_spawn_modes unbalanced_doc (str ''urdf'') =
     Inr (str ''G1_CFG = UnitreeArticulationCfg(\<newline>    # spawn=UnitreeUsdFileCfg(\<newline>    # ),\<newline>'',
          1, 0, 1)"
  unfolding patch_spawn_modes_def unbalanced_doc_lines
  apply (subst patch_loop.simps)
  apply (simp add: unbalanced_lines_start unbalanced_lines_end unbalanced_lines_blocks
      unbalanced_lines_switch unbalanced_lines_length)
  apply (subst patch_loop.simps)
  apply (simp add: str_def)
  done

text \<open>
  C1. The code has no \<^verbatim>\<open>MalformedRegionError\<close>. When the delimiters of a region never
  balance before the end of the document, the region locator returns the index of the
  last line, so the region runs to the end of the document. The patch does not raise:
  the run returns the status 0, and it writes the patched text, after the backup unless
  suppressed, when this text differs from the original.
\<close>

theorem unbalanced_region_ends_at_last_line:
  assumes "\<forall>k. start \<le> k \<and> k < length (splitlines_keep original) \<longrightarrow>
             \<not> balanced_at (splitlines_keep original) start k"
  shows "find_cfg_block_end (splitlines_keep original) start =
           int (length (splitlines_keep original)) - 1 \<and>
         (\<exists>patched c u d. patch_spawn_modes original mode = Inr (patched, c, u, d) \<and>
            main_run (Some original) mode values no_backup =
              (let final = (if dom values \<noteq> {} then replace_dir_assignments patched values
                            else patched)
               in if final \<noteq> original
                  then Returned 0 (Some final) (if no_backup then None else Some original)
                  else Returned 0 None None))"
proof
  show "find_cfg_block_end (splitlines_keep original) start =
      int (length (splitlines_keep original)) - 1"
    using assms by (rule find_cfg_block_end_unbalanced)
  from patch_spawn_modes_total [of original mode] obtain patched c u d where
    "patch_spawn_modes original mode = Inr (patched, c, u, d)" by blast
  then show "\<exists>patched c u d. patch_spawn_modes original mode = Inr (patched, c, u, d) \<and>
      main_run (Some original) mode values no_backup =
        (let final = (if dom values \<noteq> {} then replace_dir_assignments patched values
                      else patched)
         in if final \<noteq> original
            then Returned 0 (Some final) (if no_backup then None else Some original)
            else Returned 0 None None)"
    by (simp add: main_run_def)
qed

theorem unbalanced_region_ends_at_last_line_witness:
  "cfg_start (splitlines_keep unbalanced_doc ! 0) \<and>
   length (splitlines_keep unbalanced_doc) = 3 \<and>
   \<not> balanced_at (splitlines_keep unbalanced_doc) 0 0 \<and>
   \<not> balanced_at (splitlines_keep unbalanced_doc) 0 1 \<and>
   \<not> balanced_at (splitlines_keep unbalanced_doc) 0 2 \<and>
   find_cfg_block_end (splitlines_keep unbalanced_doc) 0 = 2"
proof -
  have "\<not> balanced_at unbalanced_lines 0 k" if "0 \<le> k \<and> k < 3" for k
  proof -
    from that consider "k = 0" | "k = 1" | "k = 2" by linarith
    then show ?thesis by cases (simp_all add: unbalanced_lines_never_balanced)
  qed
  then have "\<forall>k. 0 \<le> k \<and> k < length (splitlines_keep unbalanced_doc) \<longrightarrow>
      \<not> balanced_at (splitlines_keep unbalanced_doc) 0 k"
    by (simp add: unbalanced_doc_lines unbalanced_lines_length)
  from unbalanced_region_ends_at_last_line [OF this]
  have "find_cfg_block_end (splitlines_keep unbalanced_doc) 0 = 2"
    by (simp add: unbalanced_doc_lines unbalanced_lines_length)
  then show ?thesis
    by (simp add: unbalanced_doc_lines unbalanced_lines_length unbalanced_lines_start
        unbalanced_lines_never_balanced)
qed

theorem unbalanced_region_is_patched:
  "cfg_start (splitlines_keep unbalanced_doc ! 0) \<and>
   length (splitlines_keep unbalanced_doc) = 3 \<and>
   \<not> balanced_at (splitlines_keep unbalanced_doc) 0 0 \<and>
   \<not> balanced_at (splitlines_keep unbalanced_doc) 0 1 \<and>
   \<not> balanced_at (splitlines_keep unbalanced_doc) 0 2 \<and>
   main_run (Some unbalanced_doc) (str ''urdf'') Map.empty False =
     Returned 0
       (Some (str ''G1_CFG = UnitreeArticulationCfg(\<newline>    # spawn=UnitreeUsdFileCfg(\<newline>    # ),\<newline>''))
       (Some unbalanced_doc)"
proof -
  have "main_run (Some unbalanced_doc) (str ''urdf'') Map.empty False =
     Returned 0
       (Some (str ''G1_CFG = UnitreeArticulationCfg(\<newline>    # spawn=UnitreeUsdFileCfg(\<newline>    # ),\<newline>''))
       (Some unbalanced_doc)"
    by (simp add: main_run_def unbalanced_doc_patched) (simp add: unbalanced_doc_def str_def)
  then show ?thesis
    by (simp add: unbalanced_doc_lines unbalanced_lines_length unbalanced_lines_start
        unbalanced_lines_never_balanced)
qed


end
